theory Spec2Isabelle
  imports Complex_Main "HOL-Library.AList"
begin

section \<open>JavaScript containers\<close>

text \<open>
  Traders are account addresses, plain strings. A plain object keyed by trader is an
  association list in insertion order: assigning to a key that is present overwrites the
  value in place, assigning to a new key appends it (\<^const>\<open>AList.update\<close>), and
  \<^verbatim>\<open>Object.keys\<close>/\<^verbatim>\<open>Object.entries\<close> read the list from the front. Addresses are
  neither array indices nor names of \<^verbatim>\<open>Object.prototype\<close>, so no key is reordered or
  inherited. A \<^verbatim>\<open>Set\<close> is a duplicate-free list in insertion order.
\<close>

type_synonym trader = string
type_synonym cause = string
type_synonym timestamp = nat

definition fromEntries :: "('k \<times> 'v) list \<Rightarrow> ('k \<times> 'v) list" where
  "fromEntries es = fold (\<lambda>(k, v) obj. AList.update k v obj) es []"

definition setAdd :: "'a \<Rightarrow> 'a list \<Rightarrow> 'a list" where
  "setAdd x s = (if x \<in> set s then s else s @ [x])"

definition setDelete :: "'a \<Rightarrow> 'a list \<Rightarrow> 'a list" where
  "setDelete x s = removeAll x s"

definition newSet :: "'a list \<Rightarrow> 'a list" where
  "newSet xs = fold setAdd xs []"

section \<open>Check Filter (services/liquidationBot/liquidationBot.ts)\<close>

text \<open>
  lodash \<^verbatim>\<open>chunk(array, size)\<close>: empty for an empty array or a size below one; otherwise
  the loop \<^verbatim>\<open>while (index < length) result[resIndex++] = baseSlice(array, index, (index += size))\<close>.
\<close>

function chunkLoop :: "'a list \<Rightarrow> nat \<Rightarrow> nat \<Rightarrow> 'a list list" where
  "chunkLoop array csize index =
     (if index < length array \<and> 0 < csize
      then take csize (drop index array) # chunkLoop array csize (index + csize)
      else [])"
  by pat_completeness auto
termination
  by (relation "measure (\<lambda>(array, csize, index). length array - index)") auto

declare chunkLoop.simps [simp del]

definition chunk :: "'a list \<Rightarrow> nat \<Rightarrow> 'a list list" where
  "chunk array csize = (if length array = 0 \<or> csize < 1 then [] else chunkLoop array csize 0)"

text \<open>
  lodash \<^verbatim>\<open>zipObject(props, values)\<close>: for every index of \<open>props\<close> in turn it assigns
  \<open>result[props[index]] = values[index]\<close>, the value being \<^verbatim>\<open>undefined\<close> (here \<open>None\<close>)
  where \<open>values\<close> is too short.
\<close>

definition zipObject :: "'k list \<Rightarrow> 'v list \<Rightarrow> ('k \<times> 'v option) list" where
  "zipObject props vals =
     fold (\<lambda>index result.
             AList.update (props ! index)
               (if index < length vals then Some (vals ! index) else None) result)
          [0..<length props] []"

text \<open>
  Modelled from the spec: the class \<^verbatim>\<open>CheckError\<close> of the errors module, which is not
  among the source files. It carries the failed chunk, the chunk's start offset, the total
  trader count and the underlying cause (the thrown error, kept here by its message).
\<close>

record check_error =
  ce_traders :: "trader list"
  ce_offset :: nat
  ce_total :: nat
  ce_cause :: cause

datatype check_result =
    Checked "(trader \<times> bool option) list"
  | CheckErr check_error

text \<open>
  The async generator returned by \<^verbatim>\<open>constructFilterLiquidatableTraders\<close>, as the finite list
  of the values it yields. \<open>isLiquidatable chunkIndex chunkOfTraders\<close> is the outcome of the
  provider call made for that chunk: \<open>Inr\<close> the answers, \<open>Inl\<close> the thrown error.
\<close>

type_synonym provider = "nat \<Rightarrow> trader list \<Rightarrow> cause + bool list"

definition constructFilterLiquidatableTraders ::
  "provider \<Rightarrow> nat \<Rightarrow> trader list \<Rightarrow> check_result list" where
  "constructFilterLiquidatableTraders isLiquidatable chunkSize traders =
     map (\<lambda>(chunkIndex, chunkOfTraders).
            case isLiquidatable chunkIndex chunkOfTraders of
              Inr areLiquidatable \<Rightarrow> Checked (zipObject chunkOfTraders areLiquidatable)
            | Inl error \<Rightarrow>
                CheckErr \<lparr>ce_traders = chunkOfTraders, ce_offset = chunkIndex * chunkSize,
                          ce_total = length traders, ce_cause = error\<rparr>)
         (enumerate 0 (chunk traders chunkSize))"

section \<open>Traders Checker (processors/tradersChecker.ts)\<close>

text \<open>
  \<open>traders\<close> is the object \<^verbatim>\<open>{ [k in Trader]: number | null }\<close>: \<open>None\<close> is \<^verbatim>\<open>null\<close>, and a
  lookup \<open>map_of traders trader\<close> that finds nothing is \<^verbatim>\<open>undefined\<close>.
\<close>

type_synonym active_traders = "(trader \<times> timestamp option) list"

text \<open>\<^verbatim>\<open>traders[trader] ?? null\<close>\<close>

definition orNull :: "timestamp option option \<Rightarrow> timestamp option" where
  "orNull v = (case v of Some (Some n) \<Rightarrow> Some n | Some None \<Rightarrow> None | None \<Rightarrow> None)"

text \<open>The write side; the flag says whether \<^verbatim>\<open>gotActiveTraders\<close> was emitted.\<close>

definition saveActiveTraders :: "active_traders \<Rightarrow> trader list \<Rightarrow> active_traders \<times> bool" where
  "saveActiveTraders traders activeTraders =
     (let traders' = fromEntries (map (\<lambda>trader. (trader, orNull (map_of traders trader))) activeTraders)
      in (traders', traders' \<noteq> []))"

text \<open>
  \<^verbatim>\<open>traderLastCheckedAt && traderLastCheckedAt >= checkedAt\<close>: \<^verbatim>\<open>undefined\<close>, \<^verbatim>\<open>null\<close> and
  the number zero are falsy.
\<close>

definition alreadyChecked :: "timestamp option option \<Rightarrow> timestamp \<Rightarrow> bool" where
  "alreadyChecked traderLastCheckedAt checkedAt =
     (case traderLastCheckedAt of
        Some (Some n) \<Rightarrow> n \<noteq> 0 \<and> checkedAt \<le> n
      | Some None \<Rightarrow> False
      | None \<Rightarrow> False)"

text \<open>Truthiness of a value of a check result: only \<^verbatim>\<open>true\<close> is truthy.\<close>

definition truthy :: "bool option \<Rightarrow> bool" where
  "truthy v = (v = Some True)"

text \<open>
  Modelled from the spec: \<^verbatim>\<open>Object.entries\<close> of a \<^verbatim>\<open>CheckError\<close>, whose class is not among
  the source files. The four values it carries are fields assigned by its constructor, hence
  own enumerable properties; each is paired with its truthiness (an array and an error object
  are truthy, a number is truthy unless zero). The integration test reads the field \<^verbatim>\<open>cause\<close>;
  the other three names stand for the fields' real names.
\<close>

definition checkErrorEntries :: "check_error \<Rightarrow> (string \<times> bool) list" where
  "checkErrorEntries e =
     [(''traders'', True), (''offset'', ce_offset e \<noteq> 0), (''total'', ce_total e \<noteq> 0),
      (''cause'', True)]"

fun entries :: "check_result \<Rightarrow> (string \<times> bool) list" where
  "entries (Checked obj) = map (\<lambda>(trader, v). (trader, truthy v)) obj"
| "entries (CheckErr e) = checkErrorEntries e"

datatype checker_output = OutError check_error | OutTraders "trader list"

text \<open>The body of the loop over \<^verbatim>\<open>Object.entries(checkedTraders)\<close>.\<close>

fun checkLoopBody ::
  "timestamp \<Rightarrow> string \<times> bool \<Rightarrow> active_traders \<times> trader list \<times> bool
     \<Rightarrow> active_traders \<times> trader list \<times> bool" where
  "checkLoopBody checkedAt (trader, isLiquidatable) (traders, newLiquidatableTraders, hadNewData) =
     (if alreadyChecked (map_of traders trader) checkedAt
      then (traders, newLiquidatableTraders, hadNewData)
      else (AList.update trader (Some checkedAt) traders,
            if isLiquidatable then newLiquidatableTraders @ [trader] else newLiquidatableTraders,
            True))"

text \<open>
  One iteration of \<^verbatim>\<open>for await (const checkedTraders of liquidatableTradersFilter(...))\<close>: the
  new trader object and the values yielded downstream, in order. An error is yielded first;
  there is no \<^verbatim>\<open>continue\<close> after it, so the loop over the entries runs for it as well.
\<close>

definition onCheckedTraders ::
  "timestamp \<Rightarrow> active_traders \<Rightarrow> check_result \<Rightarrow> active_traders \<times> checker_output list" where
  "onCheckedTraders checkedAt traders checkedTraders =
     (let yieldedError = (case checkedTraders of CheckErr e \<Rightarrow> [OutError e] | Checked obj \<Rightarrow> []);
          (traders', newLiquidatableTraders, hadNewData) =
             fold (checkLoopBody checkedAt) (entries checkedTraders) (traders, [], False)
      in (traders', yieldedError @ (if hadNewData then [OutTraders newLiquidatableTraders] else [])))"

text \<open>
  One pass of one provider's generator over the snapshot \<^verbatim>\<open>Object.keys(traders)\<close> taken at
  \<open>checkedAt\<close>, when nothing else touches the trader object during the pass.
\<close>

definition checkerPass ::
  "(trader list \<Rightarrow> check_result list) \<Rightarrow> timestamp \<Rightarrow> active_traders
     \<Rightarrow> active_traders \<times> checker_output list" where
  "checkerPass liquidatableTradersFilter checkedAt traders =
     fold (\<lambda>checkedTraders (ts, out).
             let (ts', yielded) = onCheckedTraders checkedAt ts checkedTraders in (ts', out @ yielded))
          (liquidatableTradersFilter (map fst traders)) (traders, [])"

text \<open>The delay the generator asks the timer for after a pass, in milliseconds.\<close>

definition checkerDelayMs :: "rat \<Rightarrow> rat" where
  "checkerDelayMs reCheckIntervalSec = reCheckIntervalSec * 1000"

section \<open>Traders Liquidator (processors/tradersLiquidator.ts)\<close>

text \<open>The write side; the flag says whether \<^verbatim>\<open>gotLiquidatableTraders\<close> was emitted.\<close>

definition saveLiquidatableTraders :: "trader list \<Rightarrow> trader list \<Rightarrow> trader list \<times> bool" where
  "saveLiquidatableTraders liquidatableTraders newLiquidatableTraders =
     (let liquidatableTraders' = fold setAdd newLiquidatableTraders liquidatableTraders
      in (liquidatableTraders', liquidatableTraders' \<noteq> []))"

subsection \<open>The combined re-check\<close>

text \<open>
  \<^verbatim>\<open>filterNonLiquidatableTraders\<close> starts one task per filter; the tasks interleave at their
  awaits. \<open>Yielded i r\<close> is one iteration of the \<^verbatim>\<open>for await\<close> loop of task \<open>i\<close> on the
  check result \<open>r\<close>; \<open>Returned i\<close> is the \<^verbatim>\<open>then\<close> callback that runs once task \<open>i\<close> has left
  its loop. \<open>gotSomeNonErrorResults\<close> holds the tasks whose local flag of that name is set.
  A filter catches whatever its provider throws and yields it as a CheckError, so no task is
  rejected and \<^verbatim>\<open>throwOnUnexpectedError\<close> is never called.
\<close>

datatype filter_event = Yielded nat check_result | Returned nat

record filter_state =
  nonLiquidatableTraders :: "trader list"
  liquidatableChecksErrors :: "check_error list"
  processed :: nat
  resolved :: bool
  gotSomeNonErrorResults :: "nat set"

text \<open>\<^verbatim>\<open>_(checkResult).pickBy(Boolean).keys()\<close>\<close>

definition pickByBooleanKeys :: "(trader \<times> bool option) list \<Rightarrow> trader list" where
  "pickByBooleanKeys checkResult = map fst (filter (\<lambda>(trader, v). truthy v) checkResult)"

fun filterStep :: "nat \<Rightarrow> filter_state \<Rightarrow> filter_event \<Rightarrow> filter_state" where
  "filterStep n s (Yielded i (CheckErr e)) =
     s\<lparr>liquidatableChecksErrors := liquidatableChecksErrors s @ [e]\<rparr>"
| "filterStep n s (Yielded i (Checked checkResult)) =
     s\<lparr>gotSomeNonErrorResults := insert i (gotSomeNonErrorResults s),
       nonLiquidatableTraders :=
         fold setDelete (pickByBooleanKeys checkResult) (nonLiquidatableTraders s)\<rparr>"
| "filterStep n s (Returned i) =
     (let processed' = processed s + 1;
          allProcessed = (processed' = n)
      in s\<lparr>processed := processed',
            resolved := (resolved s \<or> allProcessed \<or> i \<in> gotSomeNonErrorResults s)\<rparr>)"

text \<open>
  The events of a run: \<open>pending ! i\<close> are the results filter \<open>i\<close> has still to yield,
  \<open>returned ! i\<close> says whether its task is over, and the schedule names the task that runs
  next. A task that is over does nothing more.
\<close>

fun traceOf :: "check_result list list \<Rightarrow> bool list \<Rightarrow> nat list \<Rightarrow> filter_event list" where
  "traceOf pending returned [] = []"
| "traceOf pending returned (i # schedule) =
     (if i < length pending \<and> i < length returned \<and> \<not> returned ! i
      then (case pending ! i of
              r # rs \<Rightarrow> Yielded i r # traceOf (pending[i := rs]) returned schedule
            | [] \<Rightarrow> Returned i # traceOf pending (returned[i := True]) schedule)
      else traceOf pending returned schedule)"

definition filterInit :: "trader list \<Rightarrow> filter_state" where
  "filterInit traders =
     \<lparr>nonLiquidatableTraders = newSet traders, liquidatableChecksErrors = [], processed = 0,
      resolved = False, gotSomeNonErrorResults = {}\<rparr>"

definition filterTrace ::
  "trader list \<Rightarrow> (trader list \<Rightarrow> check_result list) list \<Rightarrow> nat list \<Rightarrow> filter_event list" where
  "filterTrace traders liquidatableTradersFilters schedule =
     traceOf (map (\<lambda>filter. filter traders) liquidatableTradersFilters)
       (replicate (length liquidatableTradersFilters) False) schedule"

definition filterRun ::
  "trader list \<Rightarrow> (trader list \<Rightarrow> check_result list) list \<Rightarrow> nat list \<Rightarrow> filter_state" where
  "filterRun traders liquidatableTradersFilters schedule =
     fold (\<lambda>event s. filterStep (length liquidatableTradersFilters) s event)
       (filterTrace traders liquidatableTradersFilters schedule) (filterInit traders)"

text \<open>
  The value the caller gets from \<^verbatim>\<open>await filterNonLiquidatableTraders(...)\<close> when the schedule
  lists the task steps that ran before the caller went on: nothing while the promise
  \<^verbatim>\<open>someFilterSucceedOrAllFails\<close> is unresolved, else the shared set and error list as they
  are by then.
\<close>

definition filterNonLiquidatableTraders ::
  "trader list \<Rightarrow> (trader list \<Rightarrow> check_result list) list \<Rightarrow> nat list
     \<Rightarrow> (trader list \<times> check_error list) option" where
  "filterNonLiquidatableTraders traders liquidatableTradersFilters schedule =
     (let s = filterRun traders liquidatableTradersFilters schedule
      in if resolved s then Some (nonLiquidatableTraders s, liquidatableChecksErrors s) else None)"

text \<open>The traders for which some result in the trace holds \<^verbatim>\<open>true\<close>.\<close>

definition reportedTrue :: "filter_event list \<Rightarrow> trader set" where
  "reportedTrue events =
     {trader. \<exists>i obj. Yielded i (Checked obj) \<in> set events \<and> (trader, Some True) \<in> set obj}"

text \<open>What a trace says of one task: the results task \<open>i\<close> has yielded, in order.\<close>

fun yieldedBy :: "nat \<Rightarrow> filter_event list \<Rightarrow> check_result list" where
  "yieldedBy i [] = []"
| "yieldedBy i (Yielded j r # events) = (if j = i then r # yieldedBy i events else yieldedBy i events)"
| "yieldedBy i (Returned j # events) = yieldedBy i events"

fun isChecked :: "check_result \<Rightarrow> bool" where
  "isChecked (Checked obj) = True"
| "isChecked (CheckErr e) = False"

text \<open>
  The completion condition in the specification's words, to be compared with \<open>resolved\<close>:
  (a) some provider has produced a full, error-free pass over the traders (its task is over
  and none of its results is an error), or (b) every provider has finished.
\<close>

definition specCompletion ::
  "trader list \<Rightarrow> (trader list \<Rightarrow> check_result list) list \<Rightarrow> nat list \<Rightarrow> bool" where
  "specCompletion traders liquidatableTradersFilters schedule =
     (let trace = filterTrace traders liquidatableTradersFilters schedule
      in list_ex (\<lambda>i. Returned i \<in> set trace
                        \<and> list_all isChecked ((liquidatableTradersFilters ! i) traders))
           [0..<length liquidatableTradersFilters]
         \<or> list_all (\<lambda>i. Returned i \<in> set trace) [0..<length liquidatableTradersFilters])"

text \<open>
  The invariant of the re-check, with \<open>returned\<close> the tasks that are over: \<open>processed\<close>
  counts them, and the promise is resolved exactly if one of them had its flag set or all
  are over.
\<close>

definition resolvedInv :: "nat \<Rightarrow> bool list \<Rightarrow> filter_state \<Rightarrow> bool" where
  "resolvedInv n returned s =
     (length returned = n \<and> processed s = length (filter id returned)
      \<and> (resolved s \<longleftrightarrow>
            (\<exists>i < n. returned ! i \<and> i \<in> gotSomeNonErrorResults s) \<or> (\<forall>i < n. returned ! i)))"

subsection \<open>The liquidation loop\<close>

type_synonym tx = string

record liquidation_error =
  le_trader :: trader
  le_cause :: cause

datatype liquidator_result =
    LiquidatableChecksErrors "check_error list"
  | Liquidations "(trader \<times> tx) list" "liquidation_error list"

text \<open>
  Where \<^verbatim>\<open>liquidationsGenerator\<close> is suspended: before its first step, at the
  \<^verbatim>\<open>await once(...)\<close> (before and after the event fired), at the call of
  \<^verbatim>\<open>exchangeService.liquidate\<close>, at either \<^verbatim>\<open>yield\<close>, at the timer and at the re-check.
\<close>

datatype loop_pc =
    NotStarted
  | AwaitGotLiquidatableTraders
  | Woken
  | AwaitLiquidate
  | YieldedLiquidations "liquidation_error list"
  | AwaitTimeout "liquidation_error list"
  | AwaitFilter "trader list"
  | YieldedChecksErrors

datatype loop_effect =
    CallLiquidate "trader list"
  | Yield liquidator_result
  | SetTimeout rat
  | CallFilter "trader list"

text \<open>
  What resumes the processor: a write of a batch from upstream, the continuation of a
  suspended \<^verbatim>\<open>yield\<close>, timer or event wait, the exchange's answer, and the end of the
  re-check (with the filters as they answer in this cycle and the task steps that ran).
\<close>

datatype loop_event =
    Write "trader list"
  | Next
  | LiquidateReturned "(trader \<times> tx) list" "liquidation_error list"
  | FilterReturned "(trader list \<Rightarrow> check_result list) list" "nat list"

record liquidator =
  liquidatableTraders :: "trader list"
  pc :: loop_pc

definition loopHead :: "liquidator \<Rightarrow> liquidator \<times> loop_effect list" where
  "loopHead st =
     (if liquidatableTraders st = []
      then (st\<lparr>pc := AwaitGotLiquidatableTraders\<rparr>, [])
      else (st\<lparr>pc := AwaitLiquidate\<rparr>, [CallLiquidate (liquidatableTraders st)]))"

fun liquidatorStep :: "rat \<Rightarrow> liquidator \<Rightarrow> loop_event \<Rightarrow> liquidator \<times> loop_effect list" where
  "liquidatorStep retryIntervalSec st (Write newLiquidatableTraders) =
     (let (liquidatableTraders', emitted) =
            saveLiquidatableTraders (liquidatableTraders st) newLiquidatableTraders
      in (st\<lparr>liquidatableTraders := liquidatableTraders',
              pc := (if emitted \<and> pc st = AwaitGotLiquidatableTraders then Woken else pc st)\<rparr>, []))"
| "liquidatorStep retryIntervalSec st Next =
     (case pc st of
        NotStarted \<Rightarrow> loopHead st
      | Woken \<Rightarrow> (st\<lparr>pc := AwaitLiquidate\<rparr>, [CallLiquidate (liquidatableTraders st)])
      | YieldedLiquidations liquidationsErrors \<Rightarrow>
          (if liquidationsErrors \<noteq> []
           then (st\<lparr>pc := AwaitTimeout liquidationsErrors\<rparr>, [SetTimeout retryIntervalSec])
           else (st\<lparr>pc := AwaitFilter (map le_trader liquidationsErrors)\<rparr>,
                 [CallFilter (map le_trader liquidationsErrors)]))
      | AwaitTimeout liquidationsErrors \<Rightarrow>
          (st\<lparr>pc := AwaitFilter (map le_trader liquidationsErrors)\<rparr>,
           [CallFilter (map le_trader liquidationsErrors)])
      | YieldedChecksErrors \<Rightarrow> loopHead st
      | _ \<Rightarrow> (st, []))"
| "liquidatorStep retryIntervalSec st (LiquidateReturned liquidationsResults liquidationsErrors) =
     (case pc st of
        AwaitLiquidate \<Rightarrow>
          (st\<lparr>liquidatableTraders := fold setDelete (map fst liquidationsResults) (liquidatableTraders st),
              pc := YieldedLiquidations liquidationsErrors\<rparr>,
           [Yield (Liquidations liquidationsResults liquidationsErrors)])
      | _ \<Rightarrow> (st, []))"
| "liquidatorStep retryIntervalSec st (FilterReturned liquidatableTradersFilters schedule) =
     (case pc st of
        AwaitFilter erroredTraders \<Rightarrow>
          (case filterNonLiquidatableTraders erroredTraders liquidatableTradersFilters schedule of
             None \<Rightarrow> (st, [])
           | Some (nonLiquidatable, checksErrors) \<Rightarrow>
               (let st' = st\<lparr>liquidatableTraders := fold setDelete nonLiquidatable (liquidatableTraders st)\<rparr>
                in if checksErrors \<noteq> []
                   then (st'\<lparr>pc := YieldedChecksErrors\<rparr>, [Yield (LiquidatableChecksErrors checksErrors)])
                   else loopHead st'))
      | _ \<Rightarrow> (st, []))"

definition liquidatorInit :: liquidator where
  "liquidatorInit = \<lparr>liquidatableTraders = [], pc = NotStarted\<rparr>"

fun liquidatorRun ::
  "rat \<Rightarrow> liquidator \<times> loop_effect list \<Rightarrow> loop_event list \<Rightarrow> liquidator \<times> loop_effect list" where
  "liquidatorRun retryIntervalSec (st, effects) [] = (st, effects)"
| "liquidatorRun retryIntervalSec (st, effects) (event # events) =
     (let (st', new) = liquidatorStep retryIntervalSec st event
      in liquidatorRun retryIntervalSec (st', effects @ new) events)"

text \<open>
  The invariant of the loop: once the awaited event has fired, the set is not empty.
\<close>

definition wokenNonEmpty :: "liquidator \<Rightarrow> bool" where
  "wokenNonEmpty st = (pc st \<noteq> Woken \<or> liquidatableTraders st \<noteq> [])"

section \<open>Bot Orchestrator (bot.ts)\<close>

datatype bot_error =
    FetchFailure cause
  | CheckFailure check_error
  | LiquidationFailure liquidation_error

datatype report =
    ReportError bot_error
  | TradersFetched "trader list"
  | TradersChecked "trader list"
  | TraderLiquidated trader tx
  | BotStopped

text \<open>
  \<^verbatim>\<open>checkerToLiquidatorAdapterAndReporter\<close> on one value of the checker's stream: the reports
  it emits and the values it yields to the liquidator.
\<close>

fun checkerToLiquidatorAdapterAndReporter :: "checker_output \<Rightarrow> report list \<times> trader list list" where
  "checkerToLiquidatorAdapterAndReporter (OutError e) = ([ReportError (CheckFailure e)], [])"
| "checkerToLiquidatorAdapterAndReporter (OutTraders checkedTraders) =
     ([TradersChecked checkedTraders], [checkedTraders])"

text \<open>\<^verbatim>\<open>liquidatorReporter\<close> on one value of the liquidator's stream.\<close>

fun liquidatorReporter :: "liquidator_result \<Rightarrow> report list" where
  "liquidatorReporter (LiquidatableChecksErrors errors) = map (\<lambda>e. ReportError (CheckFailure e)) errors"
| "liquidatorReporter (Liquidations liquidationsResults liquidationsErrors) =
     map (\<lambda>e. ReportError (LiquidationFailure e)) liquidationsErrors
     @ map (\<lambda>(trader, contractTransaction). TraderLiquidated trader contractTransaction)
         liquidationsResults"

text \<open>
  The module state: \<open>isRunning\<close> is \<^verbatim>\<open>null\<close> or the promise made by \<^verbatim>\<open>start\<close>, kept here
  with the promise's state; the abort controllers made so far, the last of which is
  \<^verbatim>\<open>botAbortController\<close>, and whether its signal is aborted; the listeners on
  \<^verbatim>\<open>botEventEmitter\<close> and the reports emitted on it.
\<close>

datatype promise = Pending | Fulfilled | Rejected cause

datatype pipeline_error = ABORT_ERR | OtherError cause

datatype bot_exception = AlreadyRunning | NotRunning | Propagated cause | TypeError

record bot =
  isRunning :: "promise option"
  abortControllers :: nat
  aborted :: bool
  listeners :: nat
  reported :: "report list"

text \<open>
  What a caller hands to \<^verbatim>\<open>start\<close> of tradersChecker.ts as
  \<^verbatim>\<open>liquidatableTradersFilters\<close>: an array of filters, as the parameter is typed, or one
  filter function. The first thing that \<^verbatim>\<open>start\<close> does with it is
  \<^verbatim>\<open>liquidatableTradersFilters.map(...)\<close>; a function has no \<^verbatim>\<open>map\<close>, so for a function
  the call throws a TypeError.
\<close>

datatype filters_argument =
    FilterArray "(trader list \<Rightarrow> check_result list) list"
  | FilterFunction "trader list \<Rightarrow> check_result list"

definition tradersCheckerStart :: "filters_argument \<Rightarrow> bot_exception + unit" where
  "tradersCheckerStart liquidatableTradersFilters =
     (case liquidatableTradersFilters of
        FilterArray filters \<Rightarrow> Inr ()
      | FilterFunction oneFilter \<Rightarrow> Inl TypeError)"

text \<open>
  \<^verbatim>\<open>start\<close> of bot.ts, with the result and the module state it leaves. The arguments of
  \<^verbatim>\<open>pipeline(...)\<close> are evaluated in order: the fetcher stage (not among the source files,
  taken to be built), then the checker stage, which is handed the one filter function
  \<^verbatim>\<open>filterLiquidatableTraders\<close>. An exception there leaves \<^verbatim>\<open>start\<close> after the new abort
  controller is made and before \<open>isRunning\<close> is assigned; otherwise \<open>isRunning\<close> becomes the
  pending pipeline.
\<close>

definition start :: "provider \<Rightarrow> nat \<Rightarrow> bot \<Rightarrow> (bot_exception + unit) \<times> bot" where
  "start liquidationBotApi maxTradersPerLiquidationCheck b =
     (if isRunning b \<noteq> None then (Inl AlreadyRunning, b)
      else (let b' = b\<lparr>abortControllers := abortControllers b + 1, aborted := False\<rparr>;
                filterLiquidatableTraders =
                  constructFilterLiquidatableTraders liquidationBotApi maxTradersPerLiquidationCheck
            in case tradersCheckerStart (FilterFunction filterLiquidatableTraders) of
                 Inl e \<Rightarrow> (Inl e, b')
               | Inr stage \<Rightarrow> (Inr (), b'\<lparr>isRunning := Some Pending\<rparr>)))"

text \<open>The \<^verbatim>\<open>catch\<close> handler on the pipeline's promise, which settles \<open>isRunning\<close>.\<close>

definition pipelineRejected :: "pipeline_error \<Rightarrow> bot \<Rightarrow> bot" where
  "pipelineRejected error b =
     (case error of
        ABORT_ERR \<Rightarrow>
          b\<lparr>reported := reported b @ [BotStopped], listeners := 0,
            isRunning := map_option (\<lambda>p. Fulfilled) (isRunning b)\<rparr>
      | OtherError c \<Rightarrow> b\<lparr>isRunning := map_option (\<lambda>p. Rejected c) (isRunning b)\<rparr>)"

text \<open>
  \<^verbatim>\<open>await isRunning\<close>: a pending pipeline runs until it is rejected with \<open>error\<close> (its
  stages loop forever, so it never ends by itself); a settled promise is read as it is.
\<close>

definition awaitIsRunning :: "pipeline_error \<Rightarrow> bot \<Rightarrow> bot" where
  "awaitIsRunning error b = (if isRunning b = Some Pending then pipelineRejected error b else b)"

text \<open>
  \<^verbatim>\<open>stop\<close>; \<open>error\<close> is what a pipeline that is still pending is rejected with once the
  signal is aborted (\<open>ABORT_ERR\<close>, unless a stage failed first).
\<close>

definition stop :: "pipeline_error \<Rightarrow> bot \<Rightarrow> (bot_exception + unit) \<times> bot" where
  "stop error b =
     (if isRunning b = None then (Inl NotRunning, b)
      else (let b' = awaitIsRunning error (b\<lparr>aborted := True\<rparr>)
            in case isRunning b' of
                 Some (Rejected c) \<Rightarrow> (Inl (Propagated c), b')
               | _ \<Rightarrow> (Inr (), b'\<lparr>isRunning := None\<rparr>)))"

definition join :: "pipeline_error \<Rightarrow> bot \<Rightarrow> (bot_exception + unit) \<times> bot" where
  "join error b =
     (if isRunning b = None then (Inr (), b)
      else (let b' = awaitIsRunning error b
            in case isRunning b' of
                 Some (Rejected c) \<Rightarrow> (Inl (Propagated c), b')
               | _ \<Rightarrow> (Inr (), b'\<lparr>isRunning := None\<rparr>)))"

lemma chunkLoop_step:
  "index < length array \<Longrightarrow> 0 < csize \<Longrightarrow>
   chunkLoop array csize index = take csize (drop index array) # chunkLoop array csize (index + csize)"
  by (subst chunkLoop.simps) simp

lemma chunkLoop_stop:
  "\<not> (index < length array \<and> 0 < csize) \<Longrightarrow> chunkLoop array csize index = []"
  by (subst chunkLoop.simps) simp

lemma div_add_self_Suc:
  fixes a s :: nat
  assumes "0 < s"
  shows "(a + s) div s = Suc (a div s)"
proof -
  have "s \<noteq> 0" using assms by simp
  then show ?thesis by (rule div_add_self2 [THEN trans]) simp
qed

lemma ceil_step:
  fixes d s :: nat
  assumes "0 < d" "0 < s"
  shows "Suc ((d - s + s - 1) div s) = (d + s - 1) div s"
proof -
  have e: "d + s - 1 = (d - 1) + s" using assms(1) by arith
  have r: "(d + s - 1) div s = Suc ((d - 1) div s)"
    unfolding e by (rule div_add_self_Suc [OF assms(2)])
  show ?thesis
  proof (cases "s \<le> d")
    case True
    then have "d - s + s - 1 = d - 1" by arith
    then show ?thesis using r by (simp only:)
  next
    case False
    then have l: "d - s + s - 1 = s - 1" by arith
    have "s - 1 < s" using assms(2) by arith
    then have z: "(s - 1) div s = 0" by (rule div_less)
    have "d - 1 < s" using False by arith
    then have "(d - 1) div s = 0" by (rule div_less)
    then show ?thesis using r l z by (simp only:)
  qed
qed

lemma length_chunkLoop:
  "0 < csize \<Longrightarrow> length (chunkLoop array csize index) = (length array - index + csize - 1) div csize"
proof (induction array csize index rule: chunkLoop.induct)
  case (1 array csize index)
  show ?case
  proof (cases "index < length array")
    case True
    have "length (chunkLoop array csize index) = Suc ((length array - (index + csize) + csize - 1) div csize)"
      using 1 True by (simp add: chunkLoop_step)
    also have "\<dots> = (length array - index + csize - 1) div csize"
      using ceil_step [of "length array - index" csize] True 1(2) by (simp add: diff_diff_eq)
    finally show ?thesis .
  next
    case False
    then show ?thesis using 1(2) by (simp add: chunkLoop_stop)
  qed
qed

lemma chunkLoop_nth:
  "0 < csize \<Longrightarrow> i < length (chunkLoop array csize index) \<Longrightarrow>
   chunkLoop array csize index ! i = take csize (drop (index + i * csize) array)"
proof (induction array csize index arbitrary: i rule: chunkLoop.induct)
  case (1 array csize index)
  show ?case
  proof (cases "index < length array")
    case True
    note step = chunkLoop_step [OF True 1(2)]
    show ?thesis
    proof (cases i)
      case 0
      then show ?thesis by (simp add: step)
    next
      case (Suc j)
      then have "j < length (chunkLoop array csize (index + csize))"
        using 1(3) by (simp add: step)
      then have "chunkLoop array csize (index + csize) ! j = take csize (drop (index + csize + j * csize) array)"
        using 1(1) True 1(2) by simp
      then show ?thesis using Suc by (simp add: step add.assoc)
    qed
  next
    case False
    then show ?thesis using 1(3) by (simp add: chunkLoop_stop)
  qed
qed

lemma concat_chunkLoop:
  "0 < csize \<Longrightarrow> concat (chunkLoop array csize index) = drop index array"
proof (induction array csize index rule: chunkLoop.induct)
  case (1 array csize index)
  show ?case
  proof (cases "index < length array")
    case True
    have "take csize (drop index array) @ drop (index + csize) array = drop index array"
      by (metis add.commute append_take_drop_id drop_drop)
    then show ?thesis using 1 True by (simp add: chunkLoop_step)
  next
    case False
    then show ?thesis by (simp add: chunkLoop_stop)
  qed
qed

lemma fold_update_keys:
  "fst ` set (fold (\<lambda>index result. AList.update (p index) (f index) result) is acc)
     = p ` set is \<union> fst ` set acc"
  by (induction "is" arbitrary: acc) (auto simp: dom_update)

lemma zipObject_keys: "fst ` set (zipObject props vals) = set props"
proof -
  have "(\<lambda>index. props ! index) ` set [0..<length props] = set props"
    by (auto simp: in_set_conv_nth)
  then show ?thesis
    unfolding zipObject_def by (simp add: fold_update_keys)
qed

lemma fold_update_map_of_last:
  "map_of (fold (\<lambda>index result. AList.update (p index) (f index) result) (is @ [i]) acc) (p i) = Some (f i)"
  by (simp add: update_conv')

lemma fold_update_map_of_other:
  "k \<notin> p ` set is \<Longrightarrow>
   map_of (fold (\<lambda>index result. AList.update (p index) (f index) result) is acc) k = map_of acc k"
  by (induction "is" arbitrary: acc) (auto simp: update_conv')

lemma zipObject_value:
  assumes "i < length props" and "\<forall>j. i < j \<and> j < length props \<longrightarrow> props ! j \<noteq> props ! i"
  shows "map_of (zipObject props vals) (props ! i)
           = Some (if i < length vals then Some (vals ! i) else None)"
proof -
  let ?p = "\<lambda>index. props ! index"
  let ?f = "\<lambda>index. if index < length vals then Some (vals ! index) else None"
  have split: "[0..<length props] = ([0..<i] @ [i]) @ [Suc i..<length props]"
    using assms(1) by (metis append.assoc le_add1 less_imp_add_positive upt_add_eq_append upt_rec append_Cons append_Nil less_eq_nat.simps(1) Suc_leI upt_conv_Cons)
  have notin: "props ! i \<notin> ?p ` set [Suc i..<length props]"
  proof
    assume "props ! i \<in> ?p ` set [Suc i..<length props]"
    then obtain j where "Suc i \<le> j" "j < length props" "props ! j = props ! i" by auto
    with assms(2) show False by (metis Suc_le_lessD)
  qed
  show ?thesis
    unfolding zipObject_def split fold_append comp_apply
    by (subst fold_update_map_of_other [OF notin]) (simp add: update_conv')
qed

lemma length_chunk:
  "0 < csize \<Longrightarrow> length (chunk array csize) = (length array + csize - 1) div csize"
  using length_chunkLoop [of csize array 0] by (auto simp: chunk_def)

lemma chunk_nth:
  "i < length (chunk array csize) \<Longrightarrow> chunk array csize ! i = take csize (drop (i * csize) array)"
  using chunkLoop_nth [of csize i array 0] by (auto simp: chunk_def split: if_splits)

lemma concat_chunk: "0 < csize \<Longrightarrow> concat (chunk array csize) = array"
  using concat_chunkLoop [of csize array 0] by (auto simp: chunk_def)

lemma chunkLoop_elems:
  "c \<in> set (chunkLoop array csize index) \<Longrightarrow> c \<noteq> [] \<and> length c \<le> csize"
proof (induction array csize index rule: chunkLoop.induct)
  case (1 array csize index)
  show ?case
  proof (cases "index < length array \<and> 0 < csize")
    case True
    then show ?thesis using 1 by (auto simp: chunkLoop_step)
  next
    case False
    then show ?thesis using 1(2) by (simp add: chunkLoop_stop)
  qed
qed

lemma chunk_elems: "c \<in> set (chunk array csize) \<Longrightarrow> c \<noteq> [] \<and> length c \<le> csize"
  using chunkLoop_elems [of c array csize 0] by (auto simp: chunk_def split: if_splits)

lemma filter_nth:
  assumes "i < length (chunk traders chunkSize)"
  shows "constructFilterLiquidatableTraders isLiquidatable chunkSize traders ! i =
     (case isLiquidatable i (chunk traders chunkSize ! i) of
        Inr areLiquidatable \<Rightarrow> Checked (zipObject (chunk traders chunkSize ! i) areLiquidatable)
      | Inl error \<Rightarrow>
          CheckErr \<lparr>ce_traders = chunk traders chunkSize ! i, ce_offset = i * chunkSize,
                    ce_total = length traders, ce_cause = error\<rparr>)"
  using assms by (simp add: constructFilterLiquidatableTraders_def nth_enumerate_eq)

lemma length_filter_results:
  "length (constructFilterLiquidatableTraders isLiquidatable chunkSize traders) = length (chunk traders chunkSize)"
  by (simp add: constructFilterLiquidatableTraders_def)


section \<open>C2: one result per chunk, failures isolated\<close>

text \<open>
  Claim C2. For every trader list and positive chunk size, the check filter cuts the list
  into consecutive chunks of the chunk size (their concatenation is the list, chunk
  \<open>chunkIndex\<close> is the slice starting at \<open>chunkIndex * chunkSize\<close>, none is empty) and
  yields exactly one result per chunk, in chunk order. When the provider answers, the result
  is the object zipped from the chunk and the answers, whose keys are exactly the chunk's
  traders and whose value for a trader is the answer at the trader's position (of its last
  position, should the chunk repeat it). When the provider throws, the result is a CheckError
  carrying the chunk, the offset \<open>chunkIndex * chunkSize\<close>, the total trader count and the
  cause. A provider that differs only in what it does on one chunk yields the same results
  for every other chunk.
\<close>

theorem check_yields_one_result_per_chunk:
  assumes "0 < chunkSize"
  shows "concat (chunk traders chunkSize) = traders
    \<and> length (chunk traders chunkSize) = (length traders + chunkSize - 1) div chunkSize
    \<and> length (constructFilterLiquidatableTraders isLiquidatable chunkSize traders)
        = length (chunk traders chunkSize)
    \<and> (\<forall>chunkIndex < length (chunk traders chunkSize).
          chunk traders chunkSize ! chunkIndex
            = take chunkSize (drop (chunkIndex * chunkSize) traders)
        \<and> chunk traders chunkSize ! chunkIndex \<noteq> []
        \<and> (\<forall>areLiquidatable.
              isLiquidatable chunkIndex (chunk traders chunkSize ! chunkIndex) = Inr areLiquidatable \<longrightarrow>
              constructFilterLiquidatableTraders isLiquidatable chunkSize traders ! chunkIndex
                = Checked (zipObject (chunk traders chunkSize ! chunkIndex) areLiquidatable)
              \<and> fst ` set (zipObject (chunk traders chunkSize ! chunkIndex) areLiquidatable)
                  = set (chunk traders chunkSize ! chunkIndex)
              \<and> (\<forall>k < length (chunk traders chunkSize ! chunkIndex).
                    (\<forall>j. k < j \<and> j < length (chunk traders chunkSize ! chunkIndex)
                          \<longrightarrow> chunk traders chunkSize ! chunkIndex ! j
                                \<noteq> chunk traders chunkSize ! chunkIndex ! k) \<longrightarrow>
                    map_of (zipObject (chunk traders chunkSize ! chunkIndex) areLiquidatable)
                       (chunk traders chunkSize ! chunkIndex ! k)
                      = Some (if k < length areLiquidatable then Some (areLiquidatable ! k) else None)))
        \<and> (\<forall>error.
              isLiquidatable chunkIndex (chunk traders chunkSize ! chunkIndex) = Inl error \<longrightarrow>
              constructFilterLiquidatableTraders isLiquidatable chunkSize traders ! chunkIndex
                = CheckErr \<lparr>ce_traders = chunk traders chunkSize ! chunkIndex,
                            ce_offset = chunkIndex * chunkSize,
                            ce_total = length traders, ce_cause = error\<rparr>))
    \<and> (\<forall>isLiquidatable' failing.
          (\<forall>chunkIndex chunkOfTraders. chunkIndex \<noteq> failing \<longrightarrow>
              isLiquidatable' chunkIndex chunkOfTraders = isLiquidatable chunkIndex chunkOfTraders) \<longrightarrow>
          (\<forall>chunkIndex < length (chunk traders chunkSize). chunkIndex \<noteq> failing \<longrightarrow>
              constructFilterLiquidatableTraders isLiquidatable' chunkSize traders ! chunkIndex
                = constructFilterLiquidatableTraders isLiquidatable chunkSize traders ! chunkIndex))"
proof (intro conjI allI impI)
  show "concat (chunk traders chunkSize) = traders"
    by (rule concat_chunk [OF assms])
  show "length (chunk traders chunkSize) = (length traders + chunkSize - 1) div chunkSize"
    by (rule length_chunk [OF assms])
  show "length (constructFilterLiquidatableTraders isLiquidatable chunkSize traders)
          = length (chunk traders chunkSize)"
    by (rule length_filter_results)
next
  fix chunkIndex
  assume i: "chunkIndex < length (chunk traders chunkSize)"
  show "chunk traders chunkSize ! chunkIndex = take chunkSize (drop (chunkIndex * chunkSize) traders)"
    by (rule chunk_nth [OF i])
  show "chunk traders chunkSize ! chunkIndex \<noteq> []"
    using chunk_elems [of "chunk traders chunkSize ! chunkIndex" traders chunkSize] i by simp
  {
    fix areLiquidatable
    assume ok: "isLiquidatable chunkIndex (chunk traders chunkSize ! chunkIndex) = Inr areLiquidatable"
    show "constructFilterLiquidatableTraders isLiquidatable chunkSize traders ! chunkIndex
            = Checked (zipObject (chunk traders chunkSize ! chunkIndex) areLiquidatable)"
      by (simp add: filter_nth [OF i] ok)
    show "fst ` set (zipObject (chunk traders chunkSize ! chunkIndex) areLiquidatable)
            = set (chunk traders chunkSize ! chunkIndex)"
      by (rule zipObject_keys)
    fix k
    assume "k < length (chunk traders chunkSize ! chunkIndex)"
      and "\<forall>j. k < j \<and> j < length (chunk traders chunkSize ! chunkIndex)
                \<longrightarrow> chunk traders chunkSize ! chunkIndex ! j \<noteq> chunk traders chunkSize ! chunkIndex ! k"
    then show "map_of (zipObject (chunk traders chunkSize ! chunkIndex) areLiquidatable)
                 (chunk traders chunkSize ! chunkIndex ! k)
               = Some (if k < length areLiquidatable then Some (areLiquidatable ! k) else None)"
      by (rule zipObject_value)
  }
  {
    fix error
    assume "isLiquidatable chunkIndex (chunk traders chunkSize ! chunkIndex) = Inl error"
    then show "constructFilterLiquidatableTraders isLiquidatable chunkSize traders ! chunkIndex
            = CheckErr \<lparr>ce_traders = chunk traders chunkSize ! chunkIndex,
                        ce_offset = chunkIndex * chunkSize,
                        ce_total = length traders, ce_cause = error\<rparr>"
      by (simp add: filter_nth [OF i])
  }
next
  fix isLiquidatable' failing chunkIndex
  assume same: "\<forall>chunkIndex chunkOfTraders. chunkIndex \<noteq> failing \<longrightarrow>
              isLiquidatable' chunkIndex chunkOfTraders = isLiquidatable chunkIndex chunkOfTraders"
    and i: "chunkIndex < length (chunk traders chunkSize)" and ne: "chunkIndex \<noteq> failing"
  show "constructFilterLiquidatableTraders isLiquidatable' chunkSize traders ! chunkIndex
          = constructFilterLiquidatableTraders isLiquidatable chunkSize traders ! chunkIndex"
    using same ne by (simp add: filter_nth [OF i])
qed


theorem check_yields_one_result_per_chunk_witness:
  "0 < (2::nat)
   \<and> concat (chunk [''a'', ''b'', ''c'', ''d'', ''e''] 2) = [''a'', ''b'', ''c'', ''d'', ''e'']
   \<and> length (constructFilterLiquidatableTraders
         (\<lambda>chunkIndex chunkOfTraders. if chunkIndex = 1 then Inl ''boom'' else Inr [False, True])
         2 [''a'', ''b'', ''c'', ''d'', ''e'']) = 3
   \<and> constructFilterLiquidatableTraders
         (\<lambda>chunkIndex chunkOfTraders. if chunkIndex = 1 then Inl ''boom'' else Inr [False, True])
         2 [''a'', ''b'', ''c'', ''d'', ''e''] ! 1
       = CheckErr \<lparr>ce_traders = [''c'', ''d''], ce_offset = 2, ce_total = 5, ce_cause = ''boom''\<rparr>
   \<and> constructFilterLiquidatableTraders
         (\<lambda>chunkIndex chunkOfTraders. if chunkIndex = 1 then Inl ''boom'' else Inr [False, True])
         2 [''a'', ''b'', ''c'', ''d'', ''e''] ! 2
       = Checked [(''e'', Some False)]"
proof -
  let ?T = "[''a'', ''b'', ''c'', ''d'', ''e'']"
  let ?p = "\<lambda>chunkIndex chunkOfTraders :: trader list.
              if chunkIndex = (1::nat) then Inl ''boom'' else (Inr [False, True] :: cause + bool list)"
  have pos: "0 < (2::nat)" by simp
  have ch: "chunk ?T 2 = [[''a'', ''b''], [''c'', ''d''], [''e'']]"
    by (simp add: chunk_def chunkLoop.simps)
  note t = check_yields_one_result_per_chunk [OF pos, of ?T ?p]
  have c1: "concat (chunk ?T 2) = ?T" using t by blast
  have c2: "length (constructFilterLiquidatableTraders ?p 2 ?T) = 3"
    using t ch by simp
  have each: "\<forall>chunkIndex < length (chunk ?T 2).
      (\<forall>areLiquidatable. ?p chunkIndex (chunk ?T 2 ! chunkIndex) = Inr areLiquidatable \<longrightarrow>
         constructFilterLiquidatableTraders ?p 2 ?T ! chunkIndex
           = Checked (zipObject (chunk ?T 2 ! chunkIndex) areLiquidatable))
    \<and> (\<forall>error. ?p chunkIndex (chunk ?T 2 ! chunkIndex) = Inl error \<longrightarrow>
         constructFilterLiquidatableTraders ?p 2 ?T ! chunkIndex
           = CheckErr \<lparr>ce_traders = chunk ?T 2 ! chunkIndex, ce_offset = chunkIndex * 2,
                       ce_total = length ?T, ce_cause = error\<rparr>)"
    using t by blast
  have c3: "constructFilterLiquidatableTraders ?p 2 ?T ! 1
       = CheckErr \<lparr>ce_traders = [''c'', ''d''], ce_offset = 2, ce_total = 5, ce_cause = ''boom''\<rparr>"
    using each [rule_format, of 1] by (simp add: ch)
  have z: "zipObject [''e''] [False, True] = [(''e'', Some False)]"
    by (simp add: zipObject_def)
  have c4: "constructFilterLiquidatableTraders ?p 2 ?T ! 2 = Checked [(''e'', Some False)]"
    using each [rule_format, of 2] by (simp add: ch z)
  show ?thesis using pos c1 c2 c3 c4 by blast
qed


lemma fold_checkLoopBody_hadNewData:
  "snd (snd (fold (checkLoopBody checkedAt) es (traders, new, had)))
     = (had \<or> (\<exists>trader \<in> fst ` set es. \<not> alreadyChecked (map_of traders trader) checkedAt))"
proof (induction es arbitrary: traders new had)
  case Nil
  show ?case by simp
next
  case (Cons e es)
  obtain trader isLiquidatable where e: "e = (trader, isLiquidatable)" by (cases e)
  show ?case
  proof (cases "alreadyChecked (map_of traders trader) checkedAt")
    case True
    then show ?thesis by (simp add: e Cons.IH)
  next
    case False
    then show ?thesis by (auto simp: e Cons.IH)
  qed
qed

lemma fold_checkLoopBody_forwarded:
  "distinct (map fst es) \<Longrightarrow>
   fst (snd (fold (checkLoopBody checkedAt) es (traders, new, had)))
     = new @ map fst (filter (\<lambda>(trader, isLiquidatable).
                        isLiquidatable \<and> \<not> alreadyChecked (map_of traders trader) checkedAt) es)"
proof (induction es arbitrary: traders new had)
  case Nil
  show ?case by simp
next
  case (Cons e es)
  obtain trader isLiquidatable where e: "e = (trader, isLiquidatable)" by (cases e)
  have d: "distinct (map fst es)" and notin: "trader \<notin> fst ` set es"
    using Cons.prems by (auto simp: e)
  show ?case
  proof (cases "alreadyChecked (map_of traders trader) checkedAt")
    case True
    then show ?thesis by (simp add: e Cons.IH [OF d])
  next
    case False
    have same: "filter (\<lambda>(tr, isL). isL \<and> \<not> alreadyChecked (map_of (AList.update trader (Some checkedAt) traders) tr) checkedAt) es
          = filter (\<lambda>(tr, isL). isL \<and> \<not> alreadyChecked (map_of traders tr) checkedAt) es"
    proof (rule filter_cong [OF refl])
      fix x assume x: "x \<in> set es"
      obtain tr isL where xe: "x = (tr, isL)" by (cases x)
      have "tr \<noteq> trader" using x notin xe by force
      then show "(case x of (tr, isL) \<Rightarrow> isL \<and> \<not> alreadyChecked (map_of (AList.update trader (Some checkedAt) traders) tr) checkedAt)
               = (case x of (tr, isL) \<Rightarrow> isL \<and> \<not> alreadyChecked (map_of traders tr) checkedAt)"
        by (simp add: xe update_conv')
    qed
    show ?thesis using False by (simp add: e Cons.IH [OF d] same)
  qed
qed

lemma entries_Checked_filter:
  "map fst (filter (\<lambda>(trader, isLiquidatable). isLiquidatable \<and> P trader) (entries (Checked obj)))
     = map fst (filter (\<lambda>(trader, v). truthy v \<and> P trader) obj)"
  by (induction obj) auto

lemma map_fst_entries_Checked: "map fst (entries (Checked obj)) = map fst obj"
  by (induction obj) auto



section \<open>Traders Checker: lemmas\<close>

lemma fold_entries_map_of:
  "map_of (fold (\<lambda>(k, v) obj. AList.update k v obj) (map (\<lambda>t. (t, g t)) ts) acc) k
     = (if k \<in> set ts then Some (g k) else map_of acc k)"
  by (induction ts arbitrary: acc) (auto simp: update_conv')

lemma fold_entries_keys:
  "fst ` set (fold (\<lambda>(k, v) obj. AList.update k v obj) es acc) = fst ` set es \<union> fst ` set acc"
proof (induction es arbitrary: acc)
  case Nil
  show ?case by simp
next
  case (Cons e es)
  obtain k v where e: "e = (k, v)" by (cases e)
  have "fst ` set (fold (\<lambda>(k, v) obj. AList.update k v obj) es (AList.update k v acc))
          = fst ` set es \<union> ({k} \<union> fst ` set acc)"
    by (simp only: Cons.IH dom_update)
  then show ?case by (simp add: e Un_commute Un_left_commute)
qed

lemma fold_entries_distinct:
  "distinct (map fst acc) \<Longrightarrow>
   distinct (map fst (fold (\<lambda>(k, v) obj. AList.update k v obj) es acc))"
  by (induction es arbitrary: acc) (auto simp: distinct_update)

lemma orNull_cases:
  "Some (orNull v) = (case v of Some lastCheckedAt \<Rightarrow> Some lastCheckedAt | None \<Rightarrow> Some None)"
  by (simp add: orNull_def split: option.splits)



lemma alreadyChecked_pos:
  "0 < checkedAt \<Longrightarrow>
   alreadyChecked v checkedAt = (\<exists>lastCheckedAt. v = Some (Some lastCheckedAt) \<and> checkedAt \<le> lastCheckedAt)"
  by (auto simp: alreadyChecked_def split: option.splits)












section \<open>C8: a fetch rebuilds the active-trader set\<close>

text \<open>
  Claim C8. After the Fetcher delivers a new active-trader list, the keys of the trader
  object are exactly the traders of the new list (each once); a trader that was present
  before keeps its previous last-checked-at value, a trader that was not gets \<^verbatim>\<open>null\<close>,
  and a trader absent from the new list is gone, its timestamp with it.
\<close>

theorem saveActiveTraders_rebuilds_set:
  "set (map fst (fst (saveActiveTraders traders activeTraders))) = set activeTraders
   \<and> distinct (map fst (fst (saveActiveTraders traders activeTraders)))
   \<and> (\<forall>trader. map_of (fst (saveActiveTraders traders activeTraders)) trader =
         (if trader \<in> set activeTraders
          then (case map_of traders trader of
                  Some lastCheckedAt \<Rightarrow> Some lastCheckedAt
                | None \<Rightarrow> Some None)
          else None))"
proof (intro conjI allI)
  have "fst ` set (fst (saveActiveTraders traders activeTraders)) = set activeTraders"
    by (simp add: saveActiveTraders_def Let_def fromEntries_def fold_entries_keys image_image)
  then show "set (map fst (fst (saveActiveTraders traders activeTraders))) = set activeTraders"
    by simp
  show "distinct (map fst (fst (saveActiveTraders traders activeTraders)))"
    by (simp add: saveActiveTraders_def Let_def fromEntries_def fold_entries_distinct)
  fix trader
  show "map_of (fst (saveActiveTraders traders activeTraders)) trader =
         (if trader \<in> set activeTraders
          then (case map_of traders trader of
                  Some lastCheckedAt \<Rightarrow> Some lastCheckedAt
                | None \<Rightarrow> Some None)
          else None)"
    by (simp add: saveActiveTraders_def Let_def fromEntries_def fold_entries_map_of orNull_cases)
qed

section \<open>C7: the freshness guard\<close>





section \<open>C5: what a pass emits on the trader channel\<close>

text \<open>
  Claim C5 says that the list of newly liquidatable traders is emitted only when it is not
  empty. The source tests \<^verbatim>\<open>hadNewData\<close>, not the list: a pass over one trader that has
  never been checked and that the provider reports as not liquidatable emits the empty list
  (the integration test "should not liquidate non-liquidatable trader" waits for these
  \<^verbatim>\<open>tradersChecked\<close> events).
\<close>

theorem empty_list_is_emitted:
  "snd (checkerPass (constructFilterLiquidatableTraders (\<lambda>chunkIndex chunkOfTraders. Inr [False]) 1000)
          7 [(''trader1'', None)])
     = [OutTraders []]"
  by (simp add: checkerPass_def constructFilterLiquidatableTraders_def chunk_def chunkLoop.simps
      enumerate_simps zipObject_def onCheckedTraders_def truthy_def alreadyChecked_def)


text \<open>
  Claim C5, amended. For every successful check result of a pass (the object of one chunk,
  its keys distinct), the checker emits one list exactly when at least one trader of the
  chunk is fresh, that is, not recorded with a non-zero last-checked-at at or after the
  pass's timestamp; the list holds the fresh traders whose answer is true, in the chunk's
  order, and may be empty. A chunk with no fresh trader emits nothing. A CheckError is
  emitted first in its iteration, as it occurs.
\<close>

theorem checker_emits_list_when_new_data:
  "(distinct (map fst obj) \<longrightarrow>
      snd (onCheckedTraders checkedAt traders (Checked obj))
        = (if \<exists>trader \<in> fst ` set obj. \<not> alreadyChecked (map_of traders trader) checkedAt
           then [OutTraders (map fst (filter (\<lambda>(trader, v).
                    truthy v \<and> \<not> alreadyChecked (map_of traders trader) checkedAt) obj))]
           else []))
   \<and> (\<exists>rest. snd (onCheckedTraders checkedAt traders (CheckErr e)) = OutError e # rest)"
proof (intro conjI impI)
  assume d: "distinct (map fst obj)"
  let ?r = "fold (checkLoopBody checkedAt) (entries (Checked obj)) (traders, [], False)"
  have keys: "fst ` set (entries (Checked obj)) = fst ` set obj"
    using map_fst_entries_Checked [of obj] by (metis set_map)
  have had: "snd (snd ?r)
      = (\<exists>trader \<in> fst ` set obj. \<not> alreadyChecked (map_of traders trader) checkedAt)"
    by (simp only: fold_checkLoopBody_hadNewData keys) simp
  have fw: "fst (snd ?r) = map fst (filter (\<lambda>(trader, v).
                    truthy v \<and> \<not> alreadyChecked (map_of traders trader) checkedAt) obj)"
    using d by (simp only: fold_checkLoopBody_forwarded map_fst_entries_Checked
        entries_Checked_filter [where P = "\<lambda>trader. \<not> alreadyChecked (map_of traders trader) checkedAt"]) simp
  have "snd (onCheckedTraders checkedAt traders (Checked obj))
          = (if snd (snd ?r) then [OutTraders (fst (snd ?r))] else [])"
    by (simp add: onCheckedTraders_def Let_def case_prod_beta)
  then show "snd (onCheckedTraders checkedAt traders (Checked obj))
        = (if \<exists>trader \<in> fst ` set obj. \<not> alreadyChecked (map_of traders trader) checkedAt
           then [OutTraders (map fst (filter (\<lambda>(trader, v).
                    truthy v \<and> \<not> alreadyChecked (map_of traders trader) checkedAt) obj))]
           else [])"
    by (simp only: had fw)
next
  show "\<exists>rest. snd (onCheckedTraders checkedAt traders (CheckErr e)) = OutError e # rest"
    by (simp add: onCheckedTraders_def Let_def case_prod_beta)
qed

theorem checker_emits_list_when_new_data_witness:
  "distinct (map fst [(''trader1'', Some False)])
   \<and> snd (onCheckedTraders 7 [(''trader1'', None)] (Checked [(''trader1'', Some False)]))
       = [OutTraders []]"
proof -
  have d: "distinct (map fst [(''trader1'', Some False)])" by simp
  have "snd (onCheckedTraders 7 [(''trader1'', None)] (Checked [(''trader1'', Some False)]))
       = [OutTraders []]"
    using checker_emits_list_when_new_data [where obj = "[(''trader1'', Some False)]"
        and checkedAt = 7 and traders = "[(''trader1'', None)]"] d
    by (simp add: alreadyChecked_def truthy_def)
  then show ?thesis using d by simp
qed


section \<open>C1: a CheckError falls through into the loop over the entries\<close>

text \<open>
  Claim C1 says that nothing derived from a CheckError reaches the forwarded list or the
  timestamp map. In the source the error is yielded and, with no \<^verbatim>\<open>continue\<close> after the
  \<^verbatim>\<open>yield\<close>, the loop over \<^verbatim>\<open>Object.entries(checkedTraders)\<close> then runs on the error object
  itself. With one active trader and a provider call that throws, the pass stamps the error's
  field names in the trader object and yields those with a truthy value as liquidatable
  traders; the adapter passes that list on, and the liquidator adds it to its set.
\<close>

theorem check_error_entries_are_forwarded:
  "checkerPass (constructFilterLiquidatableTraders (\<lambda>chunkIndex chunkOfTraders. Inl ''boom'') 1000)
      7 [(''trader1'', None)]
     = ([(''trader1'', None), (''traders'', Some 7), (''offset'', Some 7), (''total'', Some 7),
         (''cause'', Some 7)],
        [OutError \<lparr>ce_traders = [''trader1''], ce_offset = 0, ce_total = 1, ce_cause = ''boom''\<rparr>,
         OutTraders [''traders'', ''total'', ''cause'']])
   \<and> concat (map (\<lambda>out. snd (checkerToLiquidatorAdapterAndReporter out))
         [OutError \<lparr>ce_traders = [''trader1''], ce_offset = 0, ce_total = 1, ce_cause = ''boom''\<rparr>,
          OutTraders [''traders'', ''total'', ''cause'']])
       = [[''traders'', ''total'', ''cause'']]
   \<and> saveLiquidatableTraders [] [''traders'', ''total'', ''cause'']
       = ([''traders'', ''total'', ''cause''], True)"
  by (simp add: checkerPass_def constructFilterLiquidatableTraders_def chunk_def chunkLoop.simps
      enumerate_simps onCheckedTraders_def checkErrorEntries_def alreadyChecked_def
      saveLiquidatableTraders_def setAdd_def)

section \<open>Traders Liquidator: lemmas\<close>

lemma set_fold_setAdd: "set (fold setAdd xs s) = set xs \<union> set s"
  by (induction xs arbitrary: s) (auto simp: setAdd_def)

lemma set_fold_setDelete: "set (fold setDelete xs s) = set s - set xs"
  by (induction xs arbitrary: s) (auto simp: setDelete_def)

lemma saveLiquidatableTraders_emitted:
  "saveLiquidatableTraders s new = (s', emitted) \<Longrightarrow> emitted = (s' \<noteq> []) \<and> set s' = set new \<union> set s"
proof -
  assume a: "saveLiquidatableTraders s new = (s', emitted)"
  then have s': "s' = fold setAdd new s" and em: "emitted = (s' \<noteq> [])"
    by (auto simp: saveLiquidatableTraders_def Let_def)
  have "set s' = set new \<union> set s" unfolding s' by (rule set_fold_setAdd)
  then show ?thesis using em by simp
qed

lemma loopHead_ok:
  "loopHead st = (st', new) \<Longrightarrow>
   wokenNonEmpty st' \<and> (CallLiquidate batch \<in> set new \<longrightarrow> batch \<noteq> [])"
  by (auto simp: loopHead_def wokenNonEmpty_def split: if_splits)

lemma liquidatorStep_ok:
  assumes "wokenNonEmpty st" and "liquidatorStep retryIntervalSec st event = (st', new)"
  shows "wokenNonEmpty st' \<and> (CallLiquidate batch \<in> set new \<longrightarrow> batch \<noteq> [])"
proof (cases event)
  case (Write newLiquidatableTraders)
  obtain s' emitted where sv: "saveLiquidatableTraders (liquidatableTraders st) newLiquidatableTraders = (s', emitted)"
    by (cases "saveLiquidatableTraders (liquidatableTraders st) newLiquidatableTraders")
  note e = saveLiquidatableTraders_emitted [OF sv]
  have st': "st' = st\<lparr>liquidatableTraders := s',
              pc := (if emitted \<and> pc st = AwaitGotLiquidatableTraders then Woken else pc st)\<rparr>"
    and new: "new = []"
    using assms(2) by (simp_all add: Write sv)
  have "wokenNonEmpty st'"
  proof (cases "pc st = Woken")
    case True
    then have "liquidatableTraders st \<noteq> []" using assms(1) by (simp add: wokenNonEmpty_def)
    then have "s' \<noteq> []" using e by auto
    then show ?thesis by (simp add: st' wokenNonEmpty_def)
  next
    case False
    then show ?thesis using e by (auto simp: st' wokenNonEmpty_def)
  qed
  then show ?thesis by (simp add: new)
next
  case Next
  show ?thesis
  proof (cases "pc st")
    case NotStarted
    then show ?thesis using assms(2) loopHead_ok [of st st' new batch] by (simp add: Next)
  next
    case Woken
    then show ?thesis using assms by (auto simp: Next wokenNonEmpty_def)
  next
    case YieldedChecksErrors
    then show ?thesis using assms(2) loopHead_ok [of st st' new batch] by (simp add: Next)
  qed (use assms in \<open>auto simp: Next wokenNonEmpty_def split: if_splits\<close>)
next
  case (LiquidateReturned liquidationsResults liquidationsErrors)
  then show ?thesis
    using assms by (cases "pc st") (auto simp: wokenNonEmpty_def)
next
  case (FilterReturned liquidatableTradersFilters schedule)
  show ?thesis
  proof (cases "pc st")
    case (AwaitFilter erroredTraders)
    show ?thesis
    proof (cases "filterNonLiquidatableTraders erroredTraders liquidatableTradersFilters schedule")
      case None
      then show ?thesis using assms AwaitFilter by (auto simp: FilterReturned wokenNonEmpty_def)
    next
      case (Some r)
      obtain nonLiquidatable checksErrors where r: "r = (nonLiquidatable, checksErrors)" by (cases r)
      let ?st = "st\<lparr>liquidatableTraders := fold setDelete nonLiquidatable (liquidatableTraders st)\<rparr>"
      show ?thesis
      proof (cases "checksErrors = []")
        case True
        then have "loopHead ?st = (st', new)"
          using assms(2) by (simp add: FilterReturned AwaitFilter Some r)
        then show ?thesis by (rule loopHead_ok)
      next
        case False
        then show ?thesis
          using assms(2) by (auto simp: FilterReturned AwaitFilter Some r wokenNonEmpty_def)
      qed
    qed
  qed (use assms in \<open>auto simp: FilterReturned wokenNonEmpty_def\<close>)
qed

lemma liquidatorRun_ok:
  "wokenNonEmpty st \<Longrightarrow> \<forall>batch. CallLiquidate batch \<in> set effects \<longrightarrow> batch \<noteq> [] \<Longrightarrow>
   liquidatorRun retryIntervalSec (st, effects) events = (st', effects') \<Longrightarrow>
   wokenNonEmpty st' \<and> (\<forall>batch. CallLiquidate batch \<in> set effects' \<longrightarrow> batch \<noteq> [])"
proof (induction events arbitrary: st effects)
  case Nil
  then show ?case by simp
next
  case (Cons event events)
  obtain st1 new where step: "liquidatorStep retryIntervalSec st event = (st1, new)"
    by (cases "liquidatorStep retryIntervalSec st event")
  have ok1: "wokenNonEmpty st1" and new: "\<forall>batch. CallLiquidate batch \<in> set new \<longrightarrow> batch \<noteq> []"
    using liquidatorStep_ok [OF Cons.prems(1) step] by auto
  have eff: "\<forall>batch. CallLiquidate batch \<in> set (effects @ new) \<longrightarrow> batch \<noteq> []"
    using Cons.prems(2) new by auto
  have "liquidatorRun retryIntervalSec (st1, effects @ new) events = (st', effects')"
    using Cons.prems(3) by (simp add: step)
  from Cons.IH [OF ok1 eff this] show ?case .
qed


section \<open>C10: the exchange is never called with an empty batch\<close>

text \<open>
  Claim C10. Whatever writes arrive and however the loop is resumed, every batch passed to
  \<^verbatim>\<open>exchangeService.liquidate\<close> is non-empty: the loop calls it either straight after seeing
  a non-empty set or after the awaited event, which only a write that left the set non-empty
  emits; and a write never removes a trader from the set.
\<close>

theorem liquidate_batch_never_empty:
  "(CallLiquidate batch \<in> set (snd (liquidatorRun retryIntervalSec (liquidatorInit, []) events))
      \<longrightarrow> batch \<noteq> [])
   \<and> set (liquidatableTraders st)
       \<subseteq> set (liquidatableTraders (fst (liquidatorStep retryIntervalSec st (Write newLiquidatableTraders))))"
proof (intro conjI impI)
  assume m: "CallLiquidate batch \<in> set (snd (liquidatorRun retryIntervalSec (liquidatorInit, []) events))"
  obtain st' effects' where r: "liquidatorRun retryIntervalSec (liquidatorInit, []) events = (st', effects')"
    by (cases "liquidatorRun retryIntervalSec (liquidatorInit, []) events")
  have "wokenNonEmpty liquidatorInit" by (simp add: wokenNonEmpty_def liquidatorInit_def)
  from liquidatorRun_ok [OF this _ r] m r show "batch \<noteq> []" by simp
next
  show "set (liquidatableTraders st)
       \<subseteq> set (liquidatableTraders (fst (liquidatorStep retryIntervalSec st (Write newLiquidatableTraders))))"
    by (simp add: saveLiquidatableTraders_def Let_def set_fold_setAdd)
qed

theorem liquidate_batch_never_empty_witness:
  "CallLiquidate [''trader1'']
     \<in> set (snd (liquidatorRun 1 (liquidatorInit, []) [Next, Write [], Write [''trader1''], Next]))
   \<and> [''trader1''] \<noteq> ([] :: trader list)"
proof -
  have m: "CallLiquidate [''trader1'']
     \<in> set (snd (liquidatorRun 1 (liquidatorInit, []) [Next, Write [], Write [''trader1''], Next]))"
    by (simp add: liquidatorInit_def loopHead_def saveLiquidatableTraders_def setAdd_def)
  then show ?thesis
    using liquidate_batch_never_empty [where batch = "[''trader1'']" and retryIntervalSec = 1
        and events = "[Next, Write [], Write [''trader1''], Next]"]
    by blast
qed


section \<open>C4: the pause after a failed cycle\<close>

text \<open>
  Claim C4 says that after a cycle with a failed liquidation the liquidator asks the timer
  for \<open>liquidatorRetryIntervalSec * 1000\<close> milliseconds. The source passes
  \<^verbatim>\<open>retryIntervalSec\<close> to \<^verbatim>\<open>setTimeout\<close> as it is, while the checker multiplies its interval
  by 1000: with the default interval of one second and one failed liquidation the requested
  delay is 1 millisecond, not 1000.
\<close>

theorem retry_pause_is_not_scaled:
  "snd (liquidatorRun 1 (liquidatorInit, [])
          [Write [''trader1''], Next,
           LiquidateReturned [] [\<lparr>le_trader = ''trader1'', le_cause = ''mock liquidate error''\<rparr>],
           Next])
     = [CallLiquidate [''trader1''],
        Yield (Liquidations [] [\<lparr>le_trader = ''trader1'', le_cause = ''mock liquidate error''\<rparr>]),
        SetTimeout 1]
   \<and> SetTimeout 1 \<noteq> SetTimeout (1 * 1000)
   \<and> checkerDelayMs 1 = 1 * 1000"
  by (simp add: liquidatorInit_def loopHead_def saveLiquidatableTraders_def setAdd_def
      setDelete_def checkerDelayMs_def)

section \<open>The combined re-check: lemmas\<close>

lemma set_newSet: "set (newSet xs) = set xs"
  by (simp add: newSet_def set_fold_setAdd)

lemma set_pickByBooleanKeys: "set (pickByBooleanKeys obj) = {trader. (trader, Some True) \<in> set obj}"
  by (force simp: pickByBooleanKeys_def truthy_def)

lemma reportedTrue_simps:
  "reportedTrue [] = {}"
  "reportedTrue (Yielded i (Checked obj) # events) = {trader. (trader, Some True) \<in> set obj} \<union> reportedTrue events"
  "reportedTrue (Yielded i (CheckErr e) # events) = reportedTrue events"
  "reportedTrue (Returned i # events) = reportedTrue events"
  by (auto simp: reportedTrue_def)

lemma fold_filterStep_nonLiquidatable:
  "set (nonLiquidatableTraders (fold (\<lambda>event s. filterStep n s event) events s))
     = set (nonLiquidatableTraders s) - reportedTrue events"
proof (induction events arbitrary: s)
  case Nil
  show ?case by (simp add: reportedTrue_simps)
next
  case (Cons event events)
  show ?case
  proof (cases event)
    case (Yielded i r)
    then show ?thesis
      by (cases r)
         (auto simp: Cons.IH reportedTrue_simps set_fold_setDelete set_pickByBooleanKeys)
  next
    case (Returned i)
    then show ?thesis by (simp add: Cons.IH reportedTrue_simps Let_def)
  qed
qed

lemma traceOf_yielded:
  "Yielded i r \<in> set (traceOf pending returned schedule) \<Longrightarrow>
   i < length pending \<and> r \<in> set (pending ! i)"
proof (induction schedule arbitrary: pending returned)
  case Nil
  then show ?case by simp
next
  case (Cons k schedule)
  note IH = Cons.IH and prem = Cons.prems
  show ?case
  proof (cases "k < length pending \<and> k < length returned \<and> \<not> returned ! k")
    case False
    then have "traceOf pending returned (k # schedule) = traceOf pending returned schedule"
      by auto
    then show ?thesis using IH prem by simp
  next
    case enabled: True
    show ?thesis
    proof (cases "pending ! k")
      case Nil
      then have "traceOf pending returned (k # schedule)
                 = Returned k # traceOf pending (returned[k := True]) schedule"
        using enabled by simp
      then show ?thesis using IH prem by simp
    next
      case (Cons r' rs)
      then have tr: "traceOf pending returned (k # schedule)
                 = Yielded k r' # traceOf (pending[k := rs]) returned schedule"
        using enabled by simp
      show ?thesis
      proof (cases "i = k \<and> r = r'")
        case True
        then show ?thesis using Cons enabled by simp
      next
        case False
        then have "Yielded i r \<in> set (traceOf (pending[k := rs]) returned schedule)"
          using prem unfolding tr by auto
        from IH [OF this] have i: "i < length pending" and r: "r \<in> set (pending[k := rs] ! i)"
          by auto
        show ?thesis
        proof (cases "i = k")
          case True
          then show ?thesis using r i Cons by simp
        next
          case False
          then show ?thesis using r i by simp
        qed
      qed
    qed
  qed
qed

lemma filterTrace_yielded:
  assumes "Yielded i r \<in> set (filterTrace traders liquidatableTradersFilters schedule)"
  shows "i < length liquidatableTradersFilters \<and> r \<in> set ((liquidatableTradersFilters ! i) traders)"
proof -
  from assms have "i < length (map (\<lambda>filter. filter traders) liquidatableTradersFilters)
      \<and> r \<in> set (map (\<lambda>filter. filter traders) liquidatableTradersFilters ! i)"
    unfolding filterTrace_def by (rule traceOf_yielded)
  then have i: "i < length liquidatableTradersFilters"
    and r: "r \<in> set (map (\<lambda>filter. filter traders) liquidatableTradersFilters ! i)"
    by (simp, elim conjE)
  from r have "r \<in> set ((liquidatableTradersFilters ! i) traders)"
    by (simp only: nth_map [OF i])
  with i show ?thesis by (rule conjI)
qed

lemma filterNonLiquidatableTraders_set:
  assumes "filterNonLiquidatableTraders traders liquidatableTradersFilters schedule
             = Some (nonLiquidatable, checksErrors)"
  shows "set nonLiquidatable
           = set traders - reportedTrue (filterTrace traders liquidatableTradersFilters schedule)"
proof -
  have "nonLiquidatable = nonLiquidatableTraders (filterRun traders liquidatableTradersFilters schedule)"
    using assms by (auto simp: filterNonLiquidatableTraders_def Let_def split: if_splits)
  then show ?thesis
    by (simp add: filterRun_def fold_filterStep_nonLiquidatable filterInit_def set_newSet)
qed

lemma liquidatableTraders_loopHead: "liquidatableTraders (fst (loopHead st)) = liquidatableTraders st"
  by (simp add: loopHead_def)


section \<open>C3: which failed traders the re-validation removes\<close>

text \<open>
  Claim C3 says that a failed trader for which every provider failed is kept. The source
  starts from the set of all failed traders as non-liquidatable and deletes from it only the
  traders some result reports true, so with two providers that both throw the one failed
  trader stays in that set and is removed from the liquidatable set.
\<close>

theorem all_providers_failed_trader_dropped:
  "filterNonLiquidatableTraders [''trader1'']
      [constructFilterLiquidatableTraders (\<lambda>chunkIndex chunkOfTraders. Inl ''primary down'') 1000,
       constructFilterLiquidatableTraders (\<lambda>chunkIndex chunkOfTraders. Inl ''support down'') 1000]
      [0, 0, 1, 1]
     = Some ([''trader1''],
             [\<lparr>ce_traders = [''trader1''], ce_offset = 0, ce_total = 1, ce_cause = ''primary down''\<rparr>,
              \<lparr>ce_traders = [''trader1''], ce_offset = 0, ce_total = 1, ce_cause = ''support down''\<rparr>])
   \<and> liquidatableTraders
        (fst (liquidatorStep 1 \<lparr>liquidatableTraders = [''trader1''], pc = AwaitFilter [''trader1'']\<rparr>
               (FilterReturned
                  [constructFilterLiquidatableTraders (\<lambda>chunkIndex chunkOfTraders. Inl ''primary down'') 1000,
                   constructFilterLiquidatableTraders (\<lambda>chunkIndex chunkOfTraders. Inl ''support down'') 1000]
                  [0, 0, 1, 1])))
       = []"
proof -
  have f: "filterNonLiquidatableTraders [''trader1'']
      [constructFilterLiquidatableTraders (\<lambda>chunkIndex chunkOfTraders. Inl ''primary down'') 1000,
       constructFilterLiquidatableTraders (\<lambda>chunkIndex chunkOfTraders. Inl ''support down'') 1000]
      [0, 0, 1, 1]
     = Some ([''trader1''],
             [\<lparr>ce_traders = [''trader1''], ce_offset = 0, ce_total = 1, ce_cause = ''primary down''\<rparr>,
              \<lparr>ce_traders = [''trader1''], ce_offset = 0, ce_total = 1, ce_cause = ''support down''\<rparr>])"
    by (simp add: filterNonLiquidatableTraders_def filterRun_def filterTrace_def filterInit_def
        constructFilterLiquidatableTraders_def chunk_def chunkLoop.simps enumerate_simps
        newSet_def setAdd_def)
  have g: "liquidatorStep 1 \<lparr>liquidatableTraders = [''trader1''], pc = AwaitFilter [''trader1'']\<rparr>
               (FilterReturned
                  [constructFilterLiquidatableTraders (\<lambda>chunkIndex chunkOfTraders. Inl ''primary down'') 1000,
                   constructFilterLiquidatableTraders (\<lambda>chunkIndex chunkOfTraders. Inl ''support down'') 1000]
                  [0, 0, 1, 1])
       = (\<lparr>liquidatableTraders = [], pc = YieldedChecksErrors\<rparr>,
          [Yield (LiquidatableChecksErrors
             [\<lparr>ce_traders = [''trader1''], ce_offset = 0, ce_total = 1, ce_cause = ''primary down''\<rparr>,
              \<lparr>ce_traders = [''trader1''], ce_offset = 0, ce_total = 1, ce_cause = ''support down''\<rparr>])])"
  proof -
    note f' = f [simplified One_nat_def]
    show ?thesis by (simp add: f' setDelete_def)
  qed
  show ?thesis unfolding g using f by simp
qed


text \<open>
  Claim C3, amended. When the loop goes on after the re-check, a trader of the liquidatable
  set stays in it exactly if it was not among the failed traders or some check result that a
  provider yielded before then reports true for it; every such result is one of that
  provider's results for the failed traders. A failed trader for which every answer was
  false, or for which there was no answer, is removed: when all results of all providers are
  errors, all failed traders are removed.
\<close>

theorem revalidation_keeps_only_reported_true:
  assumes "pc st = AwaitFilter erroredTraders"
    and "filterNonLiquidatableTraders erroredTraders liquidatableTradersFilters schedule \<noteq> None"
  shows "set (liquidatableTraders
               (fst (liquidatorStep retryIntervalSec st (FilterReturned liquidatableTradersFilters schedule))))
           = {trader \<in> set (liquidatableTraders st).
                trader \<notin> set erroredTraders
                \<or> (\<exists>i obj. Yielded i (Checked obj)
                              \<in> set (filterTrace erroredTraders liquidatableTradersFilters schedule)
                            \<and> (trader, Some True) \<in> set obj)}
    \<and> (\<forall>i r. Yielded i r \<in> set (filterTrace erroredTraders liquidatableTradersFilters schedule) \<longrightarrow>
               i < length liquidatableTradersFilters
               \<and> r \<in> set ((liquidatableTradersFilters ! i) erroredTraders))
    \<and> ((\<forall>i < length liquidatableTradersFilters.
           \<forall>r \<in> set ((liquidatableTradersFilters ! i) erroredTraders). \<not> isChecked r) \<longrightarrow>
        set (liquidatableTraders
               (fst (liquidatorStep retryIntervalSec st (FilterReturned liquidatableTradersFilters schedule))))
          = set (liquidatableTraders st) - set erroredTraders)"
proof -
  let ?trace = "filterTrace erroredTraders liquidatableTradersFilters schedule"
  let ?after = "liquidatableTraders
               (fst (liquidatorStep retryIntervalSec st (FilterReturned liquidatableTradersFilters schedule)))"
  from assms(2) obtain nonLiquidatable checksErrors
    where f: "filterNonLiquidatableTraders erroredTraders liquidatableTradersFilters schedule
                = Some (nonLiquidatable, checksErrors)"
    by auto
  have nl: "set nonLiquidatable = set erroredTraders - reportedTrue ?trace"
    by (rule filterNonLiquidatableTraders_set [OF f])
  have "?after = fold setDelete nonLiquidatable (liquidatableTraders st)"
    using assms(1) f by (simp add: liquidatableTraders_loopHead Let_def)
  then have after: "set ?after = set (liquidatableTraders st) - (set erroredTraders - reportedTrue ?trace)"
    by (simp add: set_fold_setDelete nl)
  have one: "set ?after = {trader \<in> set (liquidatableTraders st).
                trader \<notin> set erroredTraders
                \<or> (\<exists>i obj. Yielded i (Checked obj) \<in> set ?trace \<and> (trader, Some True) \<in> set obj)}"
    unfolding after by (auto simp: reportedTrue_def)
  have two: "\<forall>i r. Yielded i r \<in> set ?trace \<longrightarrow>
               i < length liquidatableTradersFilters
               \<and> r \<in> set ((liquidatableTradersFilters ! i) erroredTraders)"
    using filterTrace_yielded by blast
  have three: "(\<forall>i < length liquidatableTradersFilters.
           \<forall>r \<in> set ((liquidatableTradersFilters ! i) erroredTraders). \<not> isChecked r) \<longrightarrow>
        set ?after = set (liquidatableTraders st) - set erroredTraders"
  proof
    assume allfail: "\<forall>i < length liquidatableTradersFilters.
           \<forall>r \<in> set ((liquidatableTradersFilters ! i) erroredTraders). \<not> isChecked r"
    have "reportedTrue ?trace = {}"
    proof -
      have "\<not> Yielded i (Checked obj) \<in> set ?trace" for i obj
      proof
        assume "Yielded i (Checked obj) \<in> set ?trace"
        from filterTrace_yielded [OF this] allfail have "\<not> isChecked (Checked obj)" by blast
        then show False by simp
      qed
      then show ?thesis by (auto simp: reportedTrue_def)
    qed
    then show "set ?after = set (liquidatableTraders st) - set erroredTraders"
      using after by simp
  qed
  show ?thesis using one two three by (intro conjI)
qed

theorem revalidation_keeps_only_reported_true_witness:
  "pc \<lparr>liquidatableTraders = [''trader1'', ''trader2''], pc = AwaitFilter [''trader1'', ''trader2'']\<rparr>
     = AwaitFilter [''trader1'', ''trader2'']
   \<and> filterNonLiquidatableTraders [''trader1'', ''trader2'']
        [constructFilterLiquidatableTraders (\<lambda>chunkIndex chunkOfTraders. Inl ''primary down'') 1000,
         constructFilterLiquidatableTraders (\<lambda>chunkIndex chunkOfTraders. Inr [True, False]) 1000]
        [0, 0, 1, 1] \<noteq> None
   \<and> set (liquidatableTraders
        (fst (liquidatorStep 1
               \<lparr>liquidatableTraders = [''trader1'', ''trader2''],
                pc = AwaitFilter [''trader1'', ''trader2'']\<rparr>
               (FilterReturned
                  [constructFilterLiquidatableTraders (\<lambda>chunkIndex chunkOfTraders. Inl ''primary down'') 1000,
                   constructFilterLiquidatableTraders (\<lambda>chunkIndex chunkOfTraders. Inr [True, False]) 1000]
                  [0, 0, 1, 1]))))
       = {''trader1''}"
proof -
  let ?st = "\<lparr>liquidatableTraders = [''trader1'', ''trader2''],
              pc = AwaitFilter [''trader1'', ''trader2'']\<rparr>"
  let ?filters = "[constructFilterLiquidatableTraders (\<lambda>chunkIndex chunkOfTraders. Inl ''primary down'') 1000,
         constructFilterLiquidatableTraders (\<lambda>chunkIndex chunkOfTraders. Inr [True, False]) 1000]"
  have p: "pc ?st = AwaitFilter [''trader1'', ''trader2'']" by simp
  have tr: "filterTrace [''trader1'', ''trader2''] ?filters [0, 0, 1, 1]
      = [Yielded 0 (CheckErr \<lparr>ce_traders = [''trader1'', ''trader2''], ce_offset = 0, ce_total = 2,
                              ce_cause = ''primary down''\<rparr>),
         Returned 0,
         Yielded 1 (Checked [(''trader1'', Some True), (''trader2'', Some False)]),
         Returned 1]"
    by (simp add: filterTrace_def constructFilterLiquidatableTraders_def chunk_def chunkLoop.simps
        enumerate_simps zipObject_def)
  have f: "filterNonLiquidatableTraders [''trader1'', ''trader2''] ?filters [0, 0, 1, 1] \<noteq> None"
    unfolding filterNonLiquidatableTraders_def filterRun_def tr
    by (simp add: filterInit_def)
  have "set (liquidatableTraders (fst (liquidatorStep 1 ?st (FilterReturned ?filters [0, 0, 1, 1]))))
          = {''trader1''}"
    using revalidation_keeps_only_reported_true [OF p f, of 1]
    unfolding tr by auto
  then show ?thesis using p f by (intro conjI)
qed

section \<open>The combined re-check: when it resolves\<close>

lemma count_true_update:
  "i < length returned \<Longrightarrow> \<not> returned ! i \<Longrightarrow>
   length (filter id (returned[i := True])) = Suc (length (filter id returned))"
proof (induction returned arbitrary: i)
  case Nil
  then show ?case by simp
next
  case (Cons b bs)
  show ?case
  proof (cases i)
    case 0
    then show ?thesis using Cons.prems by simp
  next
    case (Suc j)
    then show ?thesis using Cons by simp
  qed
qed

lemma count_true_all:
  "length (filter id returned) = length returned \<longleftrightarrow> (\<forall>i < length returned. returned ! i)"
proof (induction returned)
  case Nil
  show ?case by simp
next
  case (Cons b bs)
  have le: "length (filter id bs) \<le> length bs" by (rule length_filter_le)
  show ?case
  proof (cases b)
    case True
    then show ?thesis using Cons.IH by (auto simp: All_less_Suc2)
  next
    case False
    have "length (filter id bs) < Suc (length bs)" using le by (rule le_imp_less_Suc)
    then have "length (filter id bs) \<noteq> Suc (length bs)" by (rule less_imp_neq)
    then have "length (filter id (b # bs)) \<noteq> length (b # bs)" using False by simp
    moreover have "\<not> (\<forall>i < length (b # bs). (b # bs) ! i)" using False by auto
    ultimately show ?thesis by blast
  qed
qed

lemma fold_filterStep_got:
  "gotSomeNonErrorResults (fold (\<lambda>event s. filterStep n s event) events s)
     = gotSomeNonErrorResults s \<union> {i. \<exists>obj. Yielded i (Checked obj) \<in> set events}"
proof (induction events arbitrary: s)
  case Nil
  show ?case by simp
next
  case (Cons event events)
  show ?case
  proof (cases event)
    case (Yielded i r)
    then show ?thesis by (cases r) (auto simp: Cons.IH)
  next
    case (Returned i)
    then show ?thesis by (auto simp: Cons.IH Let_def)
  qed
qed

lemma resolvedInv_Yielded:
  assumes "resolvedInv n returned s" "k < n" "\<not> returned ! k"
  shows "resolvedInv n returned (filterStep n s (Yielded k r))"
proof (cases r)
  case (Checked obj)
  have "(\<exists>i<n. returned ! i \<and> i \<in> insert k (gotSomeNonErrorResults s))
          = (\<exists>i<n. returned ! i \<and> i \<in> gotSomeNonErrorResults s)"
    using assms(3) by auto
  then show ?thesis using assms(1) by (simp add: Checked resolvedInv_def)
next
  case (CheckErr e)
  then show ?thesis using assms(1) by (simp add: resolvedInv_def)
qed

lemma resolvedInv_Returned:
  assumes "resolvedInv n returned s" "k < n" "\<not> returned ! k"
  shows "resolvedInv n (returned[k := True]) (filterStep n s (Returned k))"
proof -
  from assms(1) have len: "length returned = n"
    and pr: "processed s = length (filter id returned)"
    and res: "resolved s \<longleftrightarrow>
            (\<exists>i < n. returned ! i \<and> i \<in> gotSomeNonErrorResults s) \<or> (\<forall>i < n. returned ! i)"
    by (simp_all add: resolvedInv_def)
  let ?ret = "returned[k := True]"
  have k: "k < length returned" using assms(2) len by simp
  have cnt: "length (filter id ?ret) = processed s + 1"
    using count_true_update [OF k assms(3)] pr by simp
  have allp: "(processed s + 1 = n) \<longleftrightarrow> (\<forall>i < n. ?ret ! i)"
    using count_true_all [of ?ret] cnt len by simp
  have notall: "\<not> (\<forall>i < n. returned ! i)" using assms(2,3) by blast
  have ex: "(\<exists>i < n. ?ret ! i \<and> i \<in> gotSomeNonErrorResults s)
        \<longleftrightarrow> (\<exists>i < n. returned ! i \<and> i \<in> gotSomeNonErrorResults s) \<or> k \<in> gotSomeNonErrorResults s"
  proof
    assume "\<exists>i < n. ?ret ! i \<and> i \<in> gotSomeNonErrorResults s"
    then obtain i where i: "i < n" "?ret ! i" "i \<in> gotSomeNonErrorResults s" by blast
    show "(\<exists>i < n. returned ! i \<and> i \<in> gotSomeNonErrorResults s) \<or> k \<in> gotSomeNonErrorResults s"
    proof (cases "i = k")
      case True
      then show ?thesis using i by simp
    next
      case False
      then have "returned ! i" using i(2) by simp
      then show ?thesis using i by blast
    qed
  next
    assume "(\<exists>i < n. returned ! i \<and> i \<in> gotSomeNonErrorResults s) \<or> k \<in> gotSomeNonErrorResults s"
    then show "\<exists>i < n. ?ret ! i \<and> i \<in> gotSomeNonErrorResults s"
    proof
      assume "\<exists>i < n. returned ! i \<and> i \<in> gotSomeNonErrorResults s"
      then obtain i where i: "i < n" "returned ! i" "i \<in> gotSomeNonErrorResults s" by blast
      then have "?ret ! i" using len by (cases "i = k") simp_all
      then show ?thesis using i by blast
    next
      assume "k \<in> gotSomeNonErrorResults s"
      moreover have "?ret ! k" using k by simp
      ultimately show ?thesis using assms(2) by blast
    qed
  qed
  show ?thesis
    unfolding resolvedInv_def
    using len cnt res notall allp ex by (simp add: Let_def) blast
qed

lemma resolvedInv_traceOf:
  "resolvedInv n returned s \<Longrightarrow> length pending = n \<Longrightarrow>
   resolvedInv n
     (map (\<lambda>i. returned ! i \<or> Returned i \<in> set (traceOf pending returned schedule)) [0..<n])
     (fold (\<lambda>event s. filterStep n s event) (traceOf pending returned schedule) s)"
proof (induction schedule arbitrary: pending returned s)
  case Nil
  have "length returned = n" using Nil(1) by (simp add: resolvedInv_def)
  then have "map (\<lambda>i. returned ! i) [0..<n] = returned" by (auto intro: nth_equalityI)
  then show ?case using Nil(1) by simp
next
  case (Cons k schedule)
  note IH = Cons.IH and inv = Cons.prems(1) and lp = Cons.prems(2)
  have len: "length returned = n" using inv by (simp add: resolvedInv_def)
  show ?case
  proof (cases "k < length pending \<and> k < length returned \<and> \<not> returned ! k")
    case False
    then have "traceOf pending returned (k # schedule) = traceOf pending returned schedule"
      by auto
    then show ?thesis using IH [OF inv lp] by simp
  next
    case enabled: True
    then have kn: "k < n" and nr: "\<not> returned ! k" using lp by auto
    show ?thesis
    proof (cases "pending ! k")
      case Nil
      let ?tr = "traceOf pending (returned[k := True]) schedule"
      have tr: "traceOf pending returned (k # schedule) = Returned k # ?tr"
        using enabled Nil by simp
      have inv1: "resolvedInv n (returned[k := True]) (filterStep n s (Returned k))"
        by (rule resolvedInv_Returned [OF inv kn nr])
      have m: "map (\<lambda>i. returned ! i \<or> Returned i \<in> set (Returned k # ?tr)) [0..<n]
             = map (\<lambda>i. returned[k := True] ! i \<or> Returned i \<in> set ?tr) [0..<n]"
      proof (rule map_cong [OF refl])
        fix i assume "i \<in> set [0..<n]"
        then have "i < length returned" using len by simp
        then show "(returned ! i \<or> Returned i \<in> set (Returned k # ?tr))
                 = (returned[k := True] ! i \<or> Returned i \<in> set ?tr)"
          by (cases "i = k") auto
      qed
      show ?thesis
        unfolding tr m using IH [OF inv1 lp] by simp
    next
      case (Cons r rs)
      let ?tr = "traceOf (pending[k := rs]) returned schedule"
      have tr: "traceOf pending returned (k # schedule) = Yielded k r # ?tr"
        using enabled Cons by simp
      have inv1: "resolvedInv n returned (filterStep n s (Yielded k r))"
        by (rule resolvedInv_Yielded [OF inv kn nr])
      have lp1: "length (pending[k := rs]) = n" using lp by simp
      show ?thesis
        unfolding tr using IH [OF inv1 lp1] by simp
    qed
  qed
qed

lemma traceOf_returned_lt:
  "Returned i \<in> set (traceOf pending returned schedule) \<Longrightarrow>
   i < length pending \<and> i < length returned \<and> \<not> returned ! i"
proof (induction schedule arbitrary: pending returned)
  case Nil
  then show ?case by simp
next
  case (Cons k schedule)
  note IH = Cons.IH and prem = Cons.prems
  show ?case
  proof (cases "k < length pending \<and> k < length returned \<and> \<not> returned ! k")
    case False
    then have "traceOf pending returned (k # schedule) = traceOf pending returned schedule"
      by auto
    then show ?thesis using IH prem by simp
  next
    case enabled: True
    show ?thesis
    proof (cases "pending ! k")
      case Nil
      then have tr: "traceOf pending returned (k # schedule)
                 = Returned k # traceOf pending (returned[k := True]) schedule"
        using enabled by simp
      show ?thesis
      proof (cases "i = k")
        case True
        then show ?thesis using enabled by simp
      next
        case False
        then have "Returned i \<in> set (traceOf pending (returned[k := True]) schedule)"
          using prem unfolding tr by simp
        from IH [OF this] False show ?thesis by simp
      qed
    next
      case (Cons r rs)
      then have tr: "traceOf pending returned (k # schedule)
                 = Yielded k r # traceOf (pending[k := rs]) returned schedule"
        using enabled by simp
      then have "Returned i \<in> set (traceOf (pending[k := rs]) returned schedule)"
        using prem by simp
      from IH [OF this] show ?thesis by simp
    qed
  qed
qed

lemma traceOf_quiet:
  "i < length returned \<Longrightarrow> returned ! i \<Longrightarrow>
   yieldedBy i (traceOf pending returned schedule) = []"
proof (induction schedule arbitrary: pending returned)
  case Nil
  show ?case by simp
next
  case (Cons k schedule)
  note IH = Cons.IH and prem = Cons.prems
  show ?case
  proof (cases "k < length pending \<and> k < length returned \<and> \<not> returned ! k")
    case False
    then have "traceOf pending returned (k # schedule) = traceOf pending returned schedule"
      by auto
    then show ?thesis using IH [OF prem] by simp
  next
    case enabled: True
    then have ne: "k \<noteq> i" using prem by auto
    show ?thesis
    proof (cases "pending ! k")
      case Nil
      then have tr: "traceOf pending returned (k # schedule)
                 = Returned k # traceOf pending (returned[k := True]) schedule"
        using enabled by simp
      have "i < length (returned[k := True])" "returned[k := True] ! i"
        using prem ne by simp_all
      from IH [OF this] show ?thesis unfolding tr by simp
    next
      case (Cons r rs)
      then have tr: "traceOf pending returned (k # schedule)
                 = Yielded k r # traceOf (pending[k := rs]) returned schedule"
        using enabled by simp
      show ?thesis unfolding tr using IH [OF prem] ne by simp
    qed
  qed
qed

lemma traceOf_returned_complete:
  "Returned i \<in> set (traceOf pending returned schedule) \<Longrightarrow>
   yieldedBy i (traceOf pending returned schedule) = pending ! i"
proof (induction schedule arbitrary: pending returned)
  case Nil
  then show ?case by simp
next
  case (Cons k schedule)
  note IH = Cons.IH and prem = Cons.prems
  show ?case
  proof (cases "k < length pending \<and> k < length returned \<and> \<not> returned ! k")
    case False
    then have "traceOf pending returned (k # schedule) = traceOf pending returned schedule"
      by auto
    then show ?thesis using IH prem by simp
  next
    case enabled: True
    show ?thesis
    proof (cases "pending ! k")
      case Nil
      let ?tr = "traceOf pending (returned[k := True]) schedule"
      have tr: "traceOf pending returned (k # schedule) = Returned k # ?tr"
        using enabled Nil by simp
      show ?thesis
      proof (cases "i = k")
        case True
        have "yieldedBy i ?tr = []"
          using enabled True by (intro traceOf_quiet) simp_all
        then show ?thesis unfolding tr using Nil True by simp
      next
        case False
        then have "Returned i \<in> set ?tr" using prem unfolding tr by simp
        from IH [OF this] show ?thesis unfolding tr by simp
      qed
    next
      case (Cons r rs)
      let ?tr = "traceOf (pending[k := rs]) returned schedule"
      have tr: "traceOf pending returned (k # schedule) = Yielded k r # ?tr"
        using enabled Cons by simp
      have "Returned i \<in> set ?tr" using prem unfolding tr by simp
      from IH [OF this] have y: "yieldedBy i ?tr = pending[k := rs] ! i" .
      show ?thesis
      proof (cases "i = k")
        case True
        then show ?thesis unfolding tr using y enabled Cons by simp
      next
        case False
        then show ?thesis unfolding tr using y by simp
      qed
    qed
  qed
qed

lemma traceOf_unscheduled:
  "j \<notin> set schedule \<Longrightarrow>
   traceOf (pending[j := x]) returned schedule = traceOf pending returned schedule"
proof (induction schedule arbitrary: pending returned)
  case Nil
  show ?case by simp
next
  case (Cons k schedule)
  then have ne: "k \<noteq> j" and notin: "j \<notin> set schedule" by auto
  have swap: "pending[j := x, k := rs] = pending[k := rs, j := x]" for rs
    using ne by (simp add: list_update_swap)
  show ?case
    using ne Cons.IH [OF notin] by (simp add: swap split: list.splits)
qed

lemma traceOf_fair:
  "i < length pending \<Longrightarrow> i < length returned \<Longrightarrow> \<not> returned ! i \<Longrightarrow>
   length (pending ! i) < count_list schedule i \<Longrightarrow>
   Returned i \<in> set (traceOf pending returned schedule)"
proof (induction schedule arbitrary: pending returned)
  case Nil
  then show ?case by simp
next
  case (Cons k schedule)
  note IH = Cons.IH and ip = Cons.prems(1) and ir = Cons.prems(2) and nr = Cons.prems(3)
    and cnt = Cons.prems(4)
  show ?case
  proof (cases "k < length pending \<and> k < length returned \<and> \<not> returned ! k")
    case False
    then have ne: "k \<noteq> i" using ip ir nr by auto
    have tr: "traceOf pending returned (k # schedule) = traceOf pending returned schedule"
      using False by auto
    have "length (pending ! i) < count_list schedule i" using cnt ne by simp
    from IH [OF ip ir nr this] show ?thesis unfolding tr .
  next
    case enabled: True
    show ?thesis
    proof (cases "pending ! k")
      case Nil
      have tr: "traceOf pending returned (k # schedule)
                 = Returned k # traceOf pending (returned[k := True]) schedule"
        using enabled Nil by simp
      show ?thesis
      proof (cases "k = i")
        case True
        then show ?thesis unfolding tr by simp
      next
        case False
        have c: "length (pending ! i) < count_list schedule i" using cnt False by simp
        have "i < length (returned[k := True])" "\<not> returned[k := True] ! i"
          using ir nr False by simp_all
        from IH [OF ip this c] show ?thesis unfolding tr by simp
      qed
    next
      case (Cons r rs)
      have tr: "traceOf pending returned (k # schedule)
                 = Yielded k r # traceOf (pending[k := rs]) returned schedule"
        using enabled Cons by simp
      have ip': "i < length (pending[k := rs])" using ip by simp
      have "length (pending[k := rs] ! i) < count_list schedule i"
      proof (cases "k = i")
        case True
        then show ?thesis using cnt Cons ip by simp
      next
        case False
        then show ?thesis using cnt by simp
      qed
      from IH [OF ip' ir nr this] show ?thesis unfolding tr by simp
    qed
  qed
qed

lemma resolvedInv_init:
  "0 < n \<Longrightarrow> resolvedInv n (replicate n False) (filterInit traders)"
  by (auto simp: resolvedInv_def filterInit_def)


section \<open>C6: when the combined re-check resolves\<close>

text \<open>
  Claim C6 gives as the first completion condition that some provider has produced a full,
  error-free pass. The source resolves as soon as a task is over whose flag
  \<^verbatim>\<open>gotSomeNonErrorResults\<close> is set, and one successful chunk sets it. With two traders in
  chunks of one, a first provider that fails on the first chunk and answers on the second,
  and a second provider that has not answered yet, the promise is resolved once the first
  provider's task is over, although no provider has made an error-free pass and not every
  provider has finished.
\<close>

theorem resolves_after_pass_with_error:
  "resolved (filterRun [''trader1'', ''trader2'']
      [constructFilterLiquidatableTraders
         (\<lambda>chunkIndex chunkOfTraders. if chunkIndex = 0 then Inl ''boom'' else Inr [False]) 1,
       constructFilterLiquidatableTraders (\<lambda>chunkIndex chunkOfTraders. Inr [True]) 1]
      [0, 0, 0])
   \<and> \<not> specCompletion [''trader1'', ''trader2'']
      [constructFilterLiquidatableTraders
         (\<lambda>chunkIndex chunkOfTraders. if chunkIndex = 0 then Inl ''boom'' else Inr [False]) 1,
       constructFilterLiquidatableTraders (\<lambda>chunkIndex chunkOfTraders. Inr [True]) 1]
      [0, 0, 0]
   \<and> filterNonLiquidatableTraders [''trader1'', ''trader2'']
      [constructFilterLiquidatableTraders
         (\<lambda>chunkIndex chunkOfTraders. if chunkIndex = 0 then Inl ''boom'' else Inr [False]) 1,
       constructFilterLiquidatableTraders (\<lambda>chunkIndex chunkOfTraders. Inr [True]) 1]
      [0, 0, 0]
     = Some ([''trader1'', ''trader2''],
             [\<lparr>ce_traders = [''trader1''], ce_offset = 0, ce_total = 2, ce_cause = ''boom''\<rparr>])"
proof -
  let ?T = "[''trader1'', ''trader2'']"
  let ?primary = "constructFilterLiquidatableTraders
         (\<lambda>chunkIndex chunkOfTraders. if chunkIndex = 0 then Inl ''boom'' else Inr [False]) 1"
  let ?support = "constructFilterLiquidatableTraders (\<lambda>chunkIndex chunkOfTraders. Inr [True]) 1"
  have ch: "chunk ?T 1 = [[''trader1''], [''trader2'']]"
    by (simp add: chunk_def chunkLoop.simps)
  have p: "?primary ?T
      = [CheckErr \<lparr>ce_traders = [''trader1''], ce_offset = 0, ce_total = 2, ce_cause = ''boom''\<rparr>,
         Checked [(''trader2'', Some False)]]"
    unfolding constructFilterLiquidatableTraders_def ch
    by (simp add: enumerate_simps zipObject_def)
  have s: "?support ?T = [Checked [(''trader1'', Some True)], Checked [(''trader2'', Some True)]]"
    unfolding constructFilterLiquidatableTraders_def ch
    by (simp add: enumerate_simps zipObject_def)
  have tr: "filterTrace ?T [?primary, ?support] [0, 0, 0]
      = [Yielded 0 (CheckErr \<lparr>ce_traders = [''trader1''], ce_offset = 0, ce_total = 2,
                              ce_cause = ''boom''\<rparr>),
         Yielded 0 (Checked [(''trader2'', Some False)]),
         Returned 0]"
    unfolding filterTrace_def list.map p s by simp
  have run: "filterRun ?T [?primary, ?support] [0, 0, 0]
      = \<lparr>nonLiquidatableTraders = [''trader1'', ''trader2''],
         liquidatableChecksErrors =
           [\<lparr>ce_traders = [''trader1''], ce_offset = 0, ce_total = 2, ce_cause = ''boom''\<rparr>],
         processed = 1, resolved = True, gotSomeNonErrorResults = {0}\<rparr>"
    unfolding filterRun_def tr
    by (simp add: filterInit_def newSet_def setAdd_def pickByBooleanKeys_def truthy_def)
  have a: "resolved (filterRun ?T [?primary, ?support] [0, 0, 0])"
    unfolding run by simp
  have b: "\<not> specCompletion ?T [?primary, ?support] [0, 0, 0]"
    unfolding specCompletion_def tr Let_def
    by (simp add: p p [unfolded One_nat_def] upt_rec)
  have c: "filterNonLiquidatableTraders ?T [?primary, ?support] [0, 0, 0]
     = Some ([''trader1'', ''trader2''],
             [\<lparr>ce_traders = [''trader1''], ce_offset = 0, ce_total = 2, ce_cause = ''boom''\<rparr>])"
    unfolding filterNonLiquidatableTraders_def run by simp
  show ?thesis using a b c by (intro conjI)
qed


text \<open>
  Claim C6, amended. With at least one provider, the promise of the combined re-check is
  resolved exactly when (a) some provider's task is over and it yielded at least one result
  that is not an error, or (b) every provider's task is over; the caller gets a value exactly
  when the promise is resolved. A task that is over has yielded every result of its pass over
  the failed traders. A provider that has not taken a step by the time the caller goes on has
  no influence on the value returned: replacing it by any other provider returns the same.
  And the re-check does resolve: on every schedule that runs each task once more than it has
  results, the caller gets a value.
\<close>

theorem recheck_resolves_when:
  assumes "liquidatableTradersFilters \<noteq> []"
  shows "(resolved (filterRun traders liquidatableTradersFilters schedule) \<longleftrightarrow>
            (\<exists>i < length liquidatableTradersFilters.
                Returned i \<in> set (filterTrace traders liquidatableTradersFilters schedule)
                \<and> (\<exists>obj. Yielded i (Checked obj)
                            \<in> set (filterTrace traders liquidatableTradersFilters schedule)))
            \<or> (\<forall>i < length liquidatableTradersFilters.
                  Returned i \<in> set (filterTrace traders liquidatableTradersFilters schedule)))
    \<and> (filterNonLiquidatableTraders traders liquidatableTradersFilters schedule \<noteq> None
          \<longleftrightarrow> resolved (filterRun traders liquidatableTradersFilters schedule))
    \<and> (\<forall>i. Returned i \<in> set (filterTrace traders liquidatableTradersFilters schedule) \<longrightarrow>
            i < length liquidatableTradersFilters
            \<and> yieldedBy i (filterTrace traders liquidatableTradersFilters schedule)
                = (liquidatableTradersFilters ! i) traders)
    \<and> (\<forall>j filter. j \<notin> set schedule \<longrightarrow>
            filterNonLiquidatableTraders traders (liquidatableTradersFilters[j := filter]) schedule
              = filterNonLiquidatableTraders traders liquidatableTradersFilters schedule)
    \<and> ((\<forall>i < length liquidatableTradersFilters.
            length ((liquidatableTradersFilters ! i) traders) < count_list schedule i) \<longrightarrow>
          filterNonLiquidatableTraders traders liquidatableTradersFilters schedule \<noteq> None)"
proof -
  let ?n = "length liquidatableTradersFilters"
  let ?pending = "map (\<lambda>filter. filter traders) liquidatableTradersFilters"
  let ?trace = "filterTrace traders liquidatableTradersFilters schedule"
  let ?s = "filterRun traders liquidatableTradersFilters schedule"
  have n: "0 < ?n" using assms by simp
  have tr: "?trace = traceOf ?pending (replicate ?n False) schedule"
    by (simp add: filterTrace_def)
  have inv: "resolvedInv ?n
      (map (\<lambda>i. replicate ?n False ! i \<or> Returned i \<in> set ?trace) [0..<?n]) ?s"
    unfolding tr filterRun_def filterTrace_def
    by (rule resolvedInv_traceOf [OF resolvedInv_init [OF n]]) simp
  have got: "gotSomeNonErrorResults ?s = {i. \<exists>obj. Yielded i (Checked obj) \<in> set ?trace}"
    by (simp add: filterRun_def fold_filterStep_got filterInit_def)
  have ret: "map (\<lambda>i. replicate ?n False ! i \<or> Returned i \<in> set ?trace) [0..<?n] ! i
               = (Returned i \<in> set ?trace)" if "i < ?n" for i
    using that by simp
  have one: "resolved ?s \<longleftrightarrow>
            (\<exists>i < ?n. Returned i \<in> set ?trace \<and> (\<exists>obj. Yielded i (Checked obj) \<in> set ?trace))
            \<or> (\<forall>i < ?n. Returned i \<in> set ?trace)"
  proof -
    from inv have "resolved ?s \<longleftrightarrow>
        (\<exists>i < ?n. map (\<lambda>i. replicate ?n False ! i \<or> Returned i \<in> set ?trace) [0..<?n] ! i
                    \<and> i \<in> gotSomeNonErrorResults ?s)
        \<or> (\<forall>i < ?n. map (\<lambda>i. replicate ?n False ! i \<or> Returned i \<in> set ?trace) [0..<?n] ! i)"
      by (simp only: resolvedInv_def)
    also have "\<dots> \<longleftrightarrow>
            (\<exists>i < ?n. Returned i \<in> set ?trace \<and> i \<in> gotSomeNonErrorResults ?s)
            \<or> (\<forall>i < ?n. Returned i \<in> set ?trace)"
      using ret by (metis (no_types, lifting))
    finally show ?thesis unfolding got by simp
  qed
  have two: "filterNonLiquidatableTraders traders liquidatableTradersFilters schedule \<noteq> None
          \<longleftrightarrow> resolved ?s"
    by (simp add: filterNonLiquidatableTraders_def Let_def)
  have three: "\<forall>i. Returned i \<in> set ?trace \<longrightarrow>
            i < ?n \<and> yieldedBy i ?trace = (liquidatableTradersFilters ! i) traders"
  proof (intro allI impI)
    fix i assume r: "Returned i \<in> set ?trace"
    then have i: "i < ?n" using traceOf_returned_lt [of i ?pending "replicate ?n False" schedule]
      unfolding tr by simp
    have "yieldedBy i ?trace = ?pending ! i"
      using r unfolding tr by (rule traceOf_returned_complete)
    then show "i < ?n \<and> yieldedBy i ?trace = (liquidatableTradersFilters ! i) traders"
      using i by simp
  qed
  have four: "\<forall>j filter. j \<notin> set schedule \<longrightarrow>
            filterNonLiquidatableTraders traders (liquidatableTradersFilters[j := filter]) schedule
              = filterNonLiquidatableTraders traders liquidatableTradersFilters schedule"
  proof (intro allI impI)
    fix j filter assume j: "j \<notin> set schedule"
    have "filterTrace traders (liquidatableTradersFilters[j := filter]) schedule = ?trace"
      unfolding filterTrace_def
      by (simp add: map_update traceOf_unscheduled [OF j])
    then show "filterNonLiquidatableTraders traders (liquidatableTradersFilters[j := filter]) schedule
              = filterNonLiquidatableTraders traders liquidatableTradersFilters schedule"
      by (simp add: filterNonLiquidatableTraders_def filterRun_def)
  qed
  have five: "(\<forall>i < ?n. length ((liquidatableTradersFilters ! i) traders) < count_list schedule i) \<longrightarrow>
          filterNonLiquidatableTraders traders liquidatableTradersFilters schedule \<noteq> None"
  proof
    assume fair: "\<forall>i < ?n. length ((liquidatableTradersFilters ! i) traders) < count_list schedule i"
    have "\<forall>i < ?n. Returned i \<in> set ?trace"
    proof (intro allI impI)
      fix i assume i: "i < ?n"
      then have "length (?pending ! i) < count_list schedule i" using fair by simp
      then show "Returned i \<in> set ?trace"
        unfolding tr using i by (intro traceOf_fair) simp_all
    qed
    then have "resolved ?s" using one by blast
    then show "filterNonLiquidatableTraders traders liquidatableTradersFilters schedule \<noteq> None"
      using two by blast
  qed
  show ?thesis using one two three four five by (intro conjI)
qed

theorem recheck_resolves_when_witness:
  "[constructFilterLiquidatableTraders (\<lambda>chunkIndex chunkOfTraders. Inr [False]) 1000,
    constructFilterLiquidatableTraders (\<lambda>chunkIndex chunkOfTraders. Inr [True]) 1000] \<noteq> []
   \<and> \<not> resolved (filterRun [''trader1'']
        [constructFilterLiquidatableTraders (\<lambda>chunkIndex chunkOfTraders. Inr [False]) 1000,
         constructFilterLiquidatableTraders (\<lambda>chunkIndex chunkOfTraders. Inr [True]) 1000]
        [0])
   \<and> resolved (filterRun [''trader1'']
        [constructFilterLiquidatableTraders (\<lambda>chunkIndex chunkOfTraders. Inr [False]) 1000,
         constructFilterLiquidatableTraders (\<lambda>chunkIndex chunkOfTraders. Inr [True]) 1000]
        [0, 0])
   \<and> filterNonLiquidatableTraders [''trader1'']
        [constructFilterLiquidatableTraders (\<lambda>chunkIndex chunkOfTraders. Inr [False]) 1000,
         constructFilterLiquidatableTraders (\<lambda>chunkIndex chunkOfTraders. Inr [True]) 1000]
        [0, 0]
       = filterNonLiquidatableTraders [''trader1'']
        ([constructFilterLiquidatableTraders (\<lambda>chunkIndex chunkOfTraders. Inr [False]) 1000,
          constructFilterLiquidatableTraders (\<lambda>chunkIndex chunkOfTraders. Inr [True]) 1000]
           [1 := constructFilterLiquidatableTraders (\<lambda>chunkIndex chunkOfTraders. Inr [False]) 1000])
        [0, 0]"
proof -
  let ?T = "[''trader1'']"
  let ?primary = "constructFilterLiquidatableTraders (\<lambda>chunkIndex chunkOfTraders. Inr [False]) 1000"
  let ?support = "constructFilterLiquidatableTraders (\<lambda>chunkIndex chunkOfTraders. Inr [True]) 1000"
  have ne: "[?primary, ?support] \<noteq> []" by simp
  have ch: "chunk ?T 1000 = [[''trader1'']]"
    by (simp add: chunk_def chunkLoop.simps)
  have p: "?primary ?T = [Checked [(''trader1'', Some False)]]"
    unfolding constructFilterLiquidatableTraders_def ch
    by (simp add: enumerate_simps zipObject_def)
  have s: "?support ?T = [Checked [(''trader1'', Some True)]]"
    unfolding constructFilterLiquidatableTraders_def ch
    by (simp add: enumerate_simps zipObject_def)
  have tr1: "filterTrace ?T [?primary, ?support] [0]
      = [Yielded 0 (Checked [(''trader1'', Some False)])]"
    unfolding filterTrace_def list.map p s by simp
  have tr2: "filterTrace ?T [?primary, ?support] [0, 0]
      = [Yielded 0 (Checked [(''trader1'', Some False)]), Returned 0]"
    unfolding filterTrace_def list.map p s by simp
  have len: "length [?primary, ?support] = 2" by simp
  note first = recheck_resolves_when [OF ne, of ?T "[0]", THEN conjunct1, unfolded tr1 len]
  have a: "\<not> resolved (filterRun ?T [?primary, ?support] [0])"
    unfolding first by simp (rule exI [of _ 0], simp)
  have ex: "\<exists>i<2. Returned i \<in> set [Yielded 0 (Checked [(''trader1'', Some False)]), Returned 0]
          \<and> (\<exists>obj. Yielded i (Checked obj)
                 \<in> set [Yielded 0 (Checked [(''trader1'', Some False)]), Returned 0])"
    by (intro exI [of _ 0]) simp
  note second = recheck_resolves_when [OF ne, of ?T "[0, 0]", THEN conjunct1, unfolded tr2 len]
  have b: "resolved (filterRun ?T [?primary, ?support] [0, 0])"
    unfolding second using ex by (rule disjI1)
  have "1 \<notin> set [0, 0 :: nat]" by simp
  then have c: "filterNonLiquidatableTraders ?T [?primary, ?support] [0, 0]
       = filterNonLiquidatableTraders ?T ([?primary, ?support][1 := ?primary]) [0, 0]"
    using recheck_resolves_when [OF ne, of ?T "[0, 0]", THEN conjunct2, THEN conjunct2,
        THEN conjunct2, THEN conjunct1, rule_format, of 1 ?primary]
    by simp
  show ?thesis using ne a b c by (intro conjI)
qed

section \<open>C9: start and stop\<close>

text \<open>
  The guards of \<^verbatim>\<open>start\<close> and \<^verbatim>\<open>stop\<close> on \<open>isRunning\<close>, and what \<^verbatim>\<open>stop\<close> does once the
  pipeline is pending: \<^verbatim>\<open>start\<close> throws its already-running error exactly if \<open>isRunning\<close> is
  set; \<^verbatim>\<open>stop\<close> throws its not-running error exactly if it is not set, and otherwise aborts
  the signal and awaits the pipeline, which on \<^verbatim>\<open>ABORT_ERR\<close> emits \<^verbatim>\<open>botStopped\<close>, removes the
  listeners and resets \<open>isRunning\<close>, and on any other error passes that error on.
\<close>

lemma start_already_running:
  "fst (start liquidationBotApi maxTradersPerLiquidationCheck b) = Inl AlreadyRunning
     \<longleftrightarrow> isRunning b \<noteq> None"
  by (simp add: start_def tradersCheckerStart_def Let_def)

lemma stop_lifecycle:
  "(fst (stop error b) = Inl NotRunning \<longleftrightarrow> isRunning b = None)
   \<and> (isRunning b = None \<longrightarrow> stop error b = (Inl NotRunning, b))
   \<and> (isRunning b = Some Pending \<longrightarrow>
        stop ABORT_ERR b
          = (Inr (), b\<lparr>aborted := True, reported := reported b @ [BotStopped], listeners := 0,
                       isRunning := None\<rparr>))
   \<and> (isRunning b = Some Pending \<longrightarrow>
        stop (OtherError c) b
          = (Inl (Propagated c), b\<lparr>aborted := True, isRunning := Some (Rejected c)\<rparr>))"
proof (intro conjI impI)
  show "fst (stop error b) = Inl NotRunning \<longleftrightarrow> isRunning b = None"
    by (cases "isRunning b"; cases error)
       (auto simp: stop_def awaitIsRunning_def pipelineRejected_def Let_def
             split: option.splits promise.splits)
next
  assume "isRunning b = None"
  then show "stop error b = (Inl NotRunning, b)" by (simp add: stop_def)
next
  assume "isRunning b = Some Pending"
  then show "stop ABORT_ERR b
          = (Inr (), b\<lparr>aborted := True, reported := reported b @ [BotStopped], listeners := 0,
                       isRunning := None\<rparr>)"
    by (simp add: stop_def awaitIsRunning_def pipelineRejected_def Let_def)
next
  assume "isRunning b = Some Pending"
  then show "stop (OtherError c) b
          = (Inl (Propagated c), b\<lparr>aborted := True, isRunning := Some (Rejected c)\<rparr>)"
    by (simp add: stop_def awaitIsRunning_def pipelineRejected_def Let_def)
qed


text \<open>
  Claim C9 says that \<^verbatim>\<open>start\<close> throws if and only if a session is already running, and
  otherwise starts the pipeline. In the source \<^verbatim>\<open>start\<close> hands the one filter function to the
  checker stage, whose \<^verbatim>\<open>start\<close> calls \<^verbatim>\<open>map\<close> on it: with no session running, \<^verbatim>\<open>start\<close>
  throws a TypeError after the new abort controller is made, \<open>isRunning\<close> stays unset, and a
  following \<^verbatim>\<open>stop\<close> throws its not-running error.
\<close>

theorem start_throws_when_not_running:
  "start (\<lambda>chunkIndex chunkOfTraders. Inr [True]) 1000
      \<lparr>isRunning = None, abortControllers = 0, aborted = False, listeners = 1, reported = []\<rparr>
     = (Inl TypeError,
        \<lparr>isRunning = None, abortControllers = 1, aborted = False, listeners = 1, reported = []\<rparr>)
   \<and> stop ABORT_ERR
        \<lparr>isRunning = None, abortControllers = 1, aborted = False, listeners = 1, reported = []\<rparr>
     = (Inl NotRunning,
        \<lparr>isRunning = None, abortControllers = 1, aborted = False, listeners = 1, reported = []\<rparr>)"
  by (simp add: start_def tradersCheckerStart_def stop_def Let_def)

end
